theory Spec2Isabelle
  imports Complex_Main "HOL-Library.Sublist" "HOL-Library.Word"
begin

section \<open>C strings and the argument vector\<close>

text \<open>
  A C string is modelled by the list of its characters before the terminating NUL, so
  \<open>strlen\<close> is \<open>length\<close> and \<open>strcmp(a, b) == 0\<close> is \<open>a = b\<close>. Reading
  \<open>s[k]\<close> gives \<open>Some c\<close> for a character of the string and \<open>None\<close> for the
  terminator at offset \<open>strlen(s)\<close>; the code never reads beyond the terminator.
  The argument vector \<open>argv\<close> is a list of such strings and \<open>argc\<close> is its length.
  A \<open>const char *\<close> result is \<open>None\<close> for the null pointer and \<open>Some s\<close> for a
  pointer to the string \<open>s\<close>.
\<close>

definition char_at :: "string \<Rightarrow> nat \<Rightarrow> char option" where
  "char_at s k = (if k < length s then Some (s ! k) else None)"

text \<open>
  \<open>strstr(haystack, needle)\<close> of the C library: the offset of the first occurrence of
  \<open>needle\<close> in \<open>haystack\<close>, or \<open>None\<close> for the null pointer when there is none.
\<close>

fun strstr :: "string \<Rightarrow> string \<Rightarrow> nat option" where
  "strstr [] needle = (if needle = [] then Some 0 else None)"
| "strstr (c # cs) needle =
     (if prefix needle (c # cs) then Some 0 else map_option Suc (strstr cs needle))"

section \<open>find_argument\<close>

text \<open>
  The first loop of \<open>find_argument\<close>:
  \<^verbatim>\<open>while (flag_count < (size_t)argc && strcmp(argv[flag_count], "--") != 0) flag_count++;\<close>
\<close>

function flag_count_loop :: "string list \<Rightarrow> nat \<Rightarrow> nat" where
  "flag_count_loop argv flag_count =
     (if flag_count < length argv \<and> argv ! flag_count \<noteq> ''--''
      then flag_count_loop argv (flag_count + 1)
      else flag_count)"
  by pat_completeness auto
termination
  by (relation "measure (\<lambda>(argv, flag_count). length argv - flag_count)") auto

declare flag_count_loop.simps [simp del]

text \<open>
  The search loop \<open>for (size_t i = 1; i < flag_count; i++)\<close>. The pointer \<open>loc\<close> is the
  offset \<open>strstr\<close> returns, \<open>loc != argv[i]\<close> says the offset is not 0 (or there is no
  occurrence), and \<open>loc[n]\<close> is read only when \<open>loc == argv[i]\<close>, where it is
  \<open>argv[i][n]\<close>. The three returns are \<open>argv[i] + n\<close>, \<open>loc + n + 1\<close> and
  \<open>argv[i + 1]\<close>.
\<close>

function find_argument_loop :: "string \<Rightarrow> string list \<Rightarrow> nat \<Rightarrow> nat \<Rightarrow> string option" where
  "find_argument_loop name argv flag_count i =
     (if i < flag_count then
        if strstr (argv ! i) name \<noteq> Some 0 \<or>
           (char_at (argv ! i) (length name) \<noteq> None \<and>
            char_at (argv ! i) (length name) \<noteq> Some CHR ''='')
        then find_argument_loop name argv flag_count (i + 1)
        else if char_at (argv ! i) (length name) = None \<and>
                (int i = int (length argv) - 1 \<or> char_at (argv ! (i + 1)) 0 = Some CHR ''-'')
        then Some (drop (length name) (argv ! i))
        else if char_at (argv ! i) (length name) = Some CHR ''=''
        then Some (drop (length name + 1) (argv ! i))
        else Some (argv ! (i + 1))
      else None)"
  by pat_completeness auto
termination
  by (relation "measure (\<lambda>(name, argv, flag_count, i). flag_count - i)") auto

declare find_argument_loop.simps [simp del]

definition find_argument :: "string \<Rightarrow> string list \<Rightarrow> string option" where
  "find_argument name argv = find_argument_loop name argv (flag_count_loop argv 1) 1"

subsection \<open>The vocabulary of the specification\<close>

text \<open>
  A token matches a flag name when it is exactly the name (a bare flag) or the name
  followed by \<open>=\<close> (an inline value).
\<close>

definition matches :: "string \<Rightarrow> string \<Rightarrow> bool" where
  "matches name tok \<longleftrightarrow> tok = name \<or> prefix (name @ ''='') tok"

definition begins_with_dash :: "string \<Rightarrow> bool" where
  "begins_with_dash tok \<longleftrightarrow> (case tok of [] \<Rightarrow> False | c # _ \<Rightarrow> c = CHR ''-'')"

text \<open>
  The eligible tokens are those after the program name and before the first literal
  \<open>--\<close>; the flag boundary is the index of that \<open>--\<close> in the vector, or the vector
  length when there is none. Index 0 holds the program name and is never a flag
  position, so a \<open>--\<close> there is not a boundary.
\<close>

definition eligible :: "string list \<Rightarrow> string list" where
  "eligible argv = takeWhile (\<lambda>tok. tok \<noteq> ''--'') (tl argv)"

definition boundary :: "string list \<Rightarrow> nat" where
  "boundary argv = (case argv of [] \<Rightarrow> 0 | _ # _ \<Rightarrow> Suc (length (eligible argv)))"

text \<open>
  The lookup as the specification words it: scan the eligible tokens in order; at the
  first token that matches, a bare flag that is the last eligible token or is followed
  by a token beginning with \<open>-\<close> gives the empty string, an inline value gives the
  text after the \<open>=\<close>, and otherwise the following token is the value.
\<close>

fun spec_find_argument :: "string \<Rightarrow> string list \<Rightarrow> string option" where
  "spec_find_argument name [] = None"
| "spec_find_argument name (tok # rest) =
     (if matches name tok then
        Some (if tok = name
              then (case rest of [] \<Rightarrow> [] | nxt # _ \<Rightarrow> if begins_with_dash nxt then [] else nxt)
              else drop (length name + 1) tok)
      else spec_find_argument name rest)"

section \<open>Fatal errors\<close>

text \<open>
  Every failure path prints a diagnostic to the error stream and calls
  \<open>exit(EXIT_FAILURE)\<close>. A call is modelled as returning \<open>Inl e\<close> when the process
  exits, where the constructor of \<open>e\<close> says which diagnostic was printed and its
  arguments are the values the \<open>fprintf\<close> calls print, and \<open>Inr v\<close> when it returns
  \<open>v\<close>.
\<close>

datatype c_float = NaN | NegInf | Finite real | PosInf

datatype flag_type =
    Int_flag
  | Float_flag
  | Enum_flag "string list" "32 word"  \<comment> \<open>the recognized values and the default index\<close>

datatype fatal =
    MissingArgument string
      \<comment> \<open>\<open>Missing command line argument: 'name'\<close>\<close>
  | UnrecognizedArgument string "string option" "string list"
      \<comment> \<open>\<open>Unrecognized command line argument argv[i] [for mode for_mode].\<close> and the known arguments\<close>
  | InvalidBooleanValue string string
      \<comment> \<open>\<open>Got non-empty value 'text' for boolean flag 'name'.\<close>\<close>
  | MissingRequiredValue flag_type string
      \<comment> \<open>\<open>Must specify a value for int/float/enum flag 'name'.\<close>\<close>
  | InvalidIntegerValue string string
      \<comment> \<open>\<open>Got non-integer value 'text' for integer flag 'name'.\<close>\<close>
  | IntegerOutOfRange string string "32 word" "64 word" "32 word"
      \<comment> \<open>\<open>Integer value 'text' for flag 'name' doesn't satisfy min <= i <= max.\<close>\<close>
  | InvalidFloatValue string string
      \<comment> \<open>\<open>Got non-float value 'text' for float flag 'name'.\<close>\<close>
  | FloatOutOfRange string string c_float c_float c_float
      \<comment> \<open>\<open>Float value 'text' for flag 'name' doesn't satisfy min <= f <= max.\<close>\<close>
  | UnrecognizedEnumValue string string "string list" "32 word"
      \<comment> \<open>\<open>Unrecognized value 'text' for enum flag 'name'.\<close>, the recognized values and the default index\<close>

definition require_find_argument :: "string \<Rightarrow> string list \<Rightarrow> fatal + string" where
  "require_find_argument name argv =
     (case find_argument name argv of
        None \<Rightarrow> Inl (MissingArgument name)
      | Some result \<Rightarrow> Inr result)"

section \<open>check_for_unknown_arguments\<close>

text \<open>
  The inner loop over \<open>known_arguments\<close>, from index \<open>j\<close> on: \<open>None\<close> when it ends with
  \<open>matched == 0\<close>, and \<open>Some skip\<close> when it breaks with \<open>matched = 1\<close>, where \<open>skip\<close>
  says whether the \<open>i++\<close> inside it ran.
\<close>

fun match_known :: "string list \<Rightarrow> string list \<Rightarrow> nat \<Rightarrow> bool option" where
  "match_known [] argv i = None"
| "match_known (known # rest) argv i =
     (if strstr (argv ! i) known = Some 0 \<and>
         (char_at (argv ! i) (length known) = None \<or>
          char_at (argv ! i) (length known) = Some CHR ''='')
      then Some (char_at (argv ! i) (length known) = None \<and>
                 int i < int (length argv) - 1 \<and>
                 char_at (argv ! (i + 1)) 0 \<noteq> Some CHR ''-'')
      else match_known rest argv i)"

function check_loop :: "string list \<Rightarrow> string option \<Rightarrow> string list \<Rightarrow> nat \<Rightarrow> fatal + unit" where
  "check_loop known_arguments for_mode argv i =
     (if i < length argv then
        if argv ! i = ''--'' then Inr ()
        else (case match_known known_arguments argv i of
                None \<Rightarrow> Inl (UnrecognizedArgument (argv ! i) for_mode known_arguments)
              | Some skip \<Rightarrow>
                  check_loop known_arguments for_mode argv (if skip then i + 1 + 1 else i + 1))
      else Inr ())"
  by pat_completeness auto
termination
  by (relation "measure (\<lambda>(known_arguments, for_mode, argv, i). length argv - i)") auto

declare check_loop.simps [simp del]

definition check_for_unknown_arguments ::
  "string list \<Rightarrow> string option \<Rightarrow> string list \<Rightarrow> fatal + unit" where
  "check_for_unknown_arguments known_arguments for_mode argv =
     check_loop known_arguments for_mode argv 1"

subsection \<open>The vocabulary of the specification\<close>

text \<open>A token is a known flag when it is a known name or a known name followed by \<open>=\<close>.\<close>

definition known_token :: "string list \<Rightarrow> string \<Rightarrow> bool" where
  "known_token known tok \<longleftrightarrow> (\<exists>k \<in> set known. matches k tok)"

text \<open>
  A token is matched as a bare known flag when the first known name that matches it
  (the one the search stops at) is the token itself.
\<close>

definition bare_known :: "string list \<Rightarrow> string \<Rightarrow> bool" where
  "bare_known known tok \<longleftrightarrow>
     (case find (\<lambda>k. matches k tok) known of None \<Rightarrow> False | Some k \<Rightarrow> tok = k)"

text \<open>
  The token at index \<open>i\<close> is consumed as a value when the token before it is a flag
  position (it is not the program name and was not itself consumed) holding a bare
  known flag, and the token itself does not begin with \<open>-\<close>.
\<close>

fun consumed :: "string list \<Rightarrow> string list \<Rightarrow> nat \<Rightarrow> bool" where
  "consumed known argv 0 = False"
| "consumed known argv (Suc 0) = False"
| "consumed known argv (Suc (Suc i)) =
     (\<not> consumed known argv (Suc i) \<and> bare_known known (argv ! Suc i) \<and>
      Suc (Suc i) < length argv \<and> \<not> begins_with_dash (argv ! Suc (Suc i)))"

definition accepted :: "string list \<Rightarrow> string list \<Rightarrow> nat \<Rightarrow> bool" where
  "accepted known argv i \<longleftrightarrow> known_token known (argv ! i) \<or> consumed known argv i"

section \<open>find_bool_argument\<close>

definition find_bool_argument :: "string \<Rightarrow> string list \<Rightarrow> fatal + bool" where
  "find_bool_argument name argv =
     (case find_argument name argv of
        None \<Rightarrow> Inr False
      | Some text \<Rightarrow>
          if char_at text 0 = None then Inr True
          else Inl (InvalidBooleanValue text name))"

section \<open>find_int_argument\<close>

text \<open>
  \<open>int\<close> is a 32-bit and \<open>long\<close> a 64-bit two's complement integer (the LP64 data
  model); \<open>sint\<close> reads the value of either.

  \<open>strtol(text, &processed, 10)\<close> of the C library, in the C locale: skip white space,
  read an optional sign and then decimal digits. With no digits there is no
  conversion: the result is 0 and \<open>processed\<close> is \<open>text\<close>. Otherwise the result is
  the value of the digits, \<open>LONG_MAX\<close> or \<open>LONG_MIN\<close> when that value is out of the
  range of \<open>long\<close>, and \<open>processed\<close> is the rest of the text after the digits.
\<close>

type_synonym c_int = "32 word"
type_synonym c_long = "64 word"

definition isspace :: "char \<Rightarrow> bool" where
  "isspace c \<longleftrightarrow> c \<in> {CHR '' '', CHR 0x09, CHR 0x0A, CHR 0x0B, CHR 0x0C, CHR 0x0D}"

definition isdigit :: "char \<Rightarrow> bool" where
  "isdigit c \<longleftrightarrow> 48 \<le> (of_char c :: nat) \<and> (of_char c :: nat) \<le> 57"

definition decimal :: "string \<Rightarrow> int" where
  "decimal ds = foldl (\<lambda>acc c. 10 * acc + (int (of_char c) - 48)) 0 ds"

definition LONG_MAX :: int where
  "LONG_MAX = 2 ^ 63 - 1"

definition LONG_MIN :: int where
  "LONG_MIN = - (2 ^ 63)"

definition strtol :: "string \<Rightarrow> c_long \<times> string" where
  "strtol text =
     (let s = dropWhile isspace text;
          negative = (s \<noteq> [] \<and> hd s = CHR ''-'');
          body = (if s \<noteq> [] \<and> (hd s = CHR ''-'' \<or> hd s = CHR ''+'') then tl s else s);
          ds = takeWhile isdigit body;
          v = (if negative then - decimal ds else decimal ds)
      in if ds = [] then (0, text)
         else (word_of_int (max LONG_MIN (min LONG_MAX v)), dropWhile isdigit body))"

definition find_int_argument ::
  "string \<Rightarrow> c_int \<Rightarrow> c_int \<Rightarrow> c_int \<Rightarrow> string list \<Rightarrow> fatal + c_int" where
  "find_int_argument name default_value min_value max_value argv =
     (let text = find_argument name argv in
      if text = None \<or> char_at (the text) 0 = None then
        if sint default_value < sint min_value \<or> sint default_value > sint max_value
        then Inl (MissingRequiredValue Int_flag name)
        else Inr default_value
      else
        let (i, processed) = strtol (the text) in
        if char_at processed 0 \<noteq> None then Inl (InvalidIntegerValue (the text) name)
        else if sint i < sint min_value \<or> sint i > sint max_value
        then Inl (IntegerOutOfRange (the text) name min_value i max_value)
        else Inr (word_of_int (sint i)))"

text \<open>
  The value text of the specification: optional white space, an optional sign, and one
  or more decimal digits, with the integer it denotes.
\<close>

definition signed_value :: "string \<Rightarrow> string \<Rightarrow> int" where
  "signed_value sign ds = (if sign = ''-'' then - decimal ds else decimal ds)"

definition integer_text :: "string \<Rightarrow> string \<Rightarrow> string \<Rightarrow> bool" where
  "integer_text ws sign ds \<longleftrightarrow>
     list_all isspace ws \<and> (sign = [] \<or> sign = ''+'' \<or> sign = ''-'') \<and>
     ds \<noteq> [] \<and> list_all isdigit ds"

section \<open>find_float_argument\<close>

text \<open>
  A \<open>float\<close> is a NaN, an infinity or a finite number; which finite numbers a
  \<open>float\<close> can hold plays no role here. The operators \<open><\<close> and \<open>!=\<close> are those of
  IEEE 754: every ordered comparison with a NaN is false, and a NaN differs from every
  value, itself included. The two zeros compare equal and are one value here.
\<close>

fun float_less :: "c_float \<Rightarrow> c_float \<Rightarrow> bool" where
  "float_less (Finite a) (Finite b) = (a < b)"
| "float_less (Finite a) PosInf = True"
| "float_less NegInf (Finite b) = True"
| "float_less NegInf PosInf = True"
| "float_less _ _ = False"

fun float_neq :: "c_float \<Rightarrow> c_float \<Rightarrow> bool" where
  "float_neq NaN _ = True"
| "float_neq _ NaN = True"
| "float_neq a b = (a \<noteq> b)"

text \<open>The operator \<open><=\<close>, in which the specification words the range.\<close>

fun float_le :: "c_float \<Rightarrow> c_float \<Rightarrow> bool" where
  "float_le NaN _ = False"
| "float_le _ NaN = False"
| "float_le a b = (a = b \<or> float_less a b)"

text \<open>
  \<open>strtof(text, &processed)\<close> of the C library. Which prefix of the text is a
  floating-point number and which \<open>float\<close> it converts to are parameters:
  \<open>subject text\<close> is the number of characters of the white space and number at the
  start of \<open>text\<close> (0 when there is no number), and \<open>convert\<close> gives the value of that
  prefix. What the C standard fixes is written out: with no number there is no
  conversion, the result is zero and \<open>processed\<close> is \<open>text\<close>; otherwise
  \<open>processed\<close> is the rest of the text.
\<close>

definition strtof :: "(string \<Rightarrow> nat) \<Rightarrow> (string \<Rightarrow> c_float) \<Rightarrow> string \<Rightarrow> c_float \<times> string" where
  "strtof subject convert text =
     (let k = min (subject text) (length text)
      in if k = 0 then (Finite 0, text) else (convert (take k text), drop k text))"

definition find_float_argument ::
  "(string \<Rightarrow> nat) \<Rightarrow> (string \<Rightarrow> c_float) \<Rightarrow>
   string \<Rightarrow> c_float \<Rightarrow> c_float \<Rightarrow> c_float \<Rightarrow> string list \<Rightarrow> fatal + c_float" where
  "find_float_argument subject convert name default_value min_value max_value argv =
     (case find_argument name argv of
        None \<Rightarrow>
          if float_less default_value min_value \<or> float_less max_value default_value
          then Inl (MissingRequiredValue Float_flag name)
          else Inr default_value
      | Some text \<Rightarrow>
          let (f, processed) = strtof subject convert text in
          if char_at processed 0 \<noteq> None then Inl (InvalidFloatValue text name)
          else if float_less f min_value \<or> float_less max_value f \<or> float_neq f f
          then Inl (FloatOutOfRange text name min_value f max_value)
          else Inr f)"

section \<open>find_enum_argument\<close>

text \<open>
  The loop \<open>for (size_t i = 0; i < known_values.size(); i++)\<close> over the values from
  index \<open>i\<close> on: the first index whose value equals the text.
\<close>

fun enum_loop :: "string \<Rightarrow> string list \<Rightarrow> nat \<Rightarrow> nat option" where
  "enum_loop text [] i = None"
| "enum_loop text (v # rest) i = (if text = v then Some i else enum_loop text rest (i + 1))"

definition find_enum_argument ::
  "string \<Rightarrow> c_int \<Rightarrow> string list \<Rightarrow> string list \<Rightarrow> fatal + c_int" where
  "find_enum_argument name default_index known_values argv =
     (case find_argument name argv of
        None \<Rightarrow>
          if 0 \<le> sint default_index then Inr default_index
          else Inl (MissingRequiredValue (Enum_flag known_values default_index) name)
      | Some text \<Rightarrow>
          (case enum_loop text known_values 0 of
             Some i \<Rightarrow> Inr (word_of_nat i)
           | None \<Rightarrow> Inl (UnrecognizedEnumValue text name known_values default_index)))"

section \<open>Properties of find_argument\<close>

lemma strstr_Some_0: "strstr hay needle = Some 0 \<longleftrightarrow> prefix needle hay"
  by (cases hay) auto

lemma char_at_None: "char_at s k = None \<longleftrightarrow> length s \<le> k"
  by (auto simp: char_at_def)

lemma char_at_0_dash: "char_at s 0 = Some CHR ''-'' \<longleftrightarrow> begins_with_dash s"
  by (cases s) (auto simp: char_at_def begins_with_dash_def)

lemma prefix_exact: "prefix name tok \<Longrightarrow> length tok \<le> length name \<longleftrightarrow> tok = name"
  by (auto simp: prefix_def)

lemma prefix_eq_char:
  assumes "prefix name tok"
  shows "char_at tok (length name) = Some c \<longleftrightarrow> prefix (name @ [c]) tok"
proof -
  from assms obtain rest where "tok = name @ rest" by (auto simp: prefix_def)
  then show ?thesis by (cases rest) (auto simp: char_at_def)
qed

lemma token_test:
  "\<not> (strstr tok name \<noteq> Some 0 \<or>
      (char_at tok (length name) \<noteq> None \<and> char_at tok (length name) \<noteq> Some CHR ''=''))
   \<longleftrightarrow> matches name tok"
proof (cases "prefix name tok")
  case True
  then show ?thesis
    using prefix_exact [OF True] prefix_eq_char [OF True, of "CHR ''=''"]
    by (auto simp: strstr_Some_0 char_at_None matches_def)
next
  case False
  then show ?thesis
    by (auto simp: strstr_Some_0 matches_def dest: append_prefixD)
qed

lemma flag_count_loop_eq:
  "k \<le> length argv \<Longrightarrow>
   flag_count_loop argv k = k + length (takeWhile (\<lambda>tok. tok \<noteq> ''--'') (drop k argv))"
proof (induction argv k rule: flag_count_loop.induct)
  case (1 argv k)
  show ?case
  proof (cases "k < length argv \<and> argv ! k \<noteq> ''--''")
    case True
    then have "drop k argv = argv ! k # drop (k + 1) argv"
      by (simp add: Cons_nth_drop_Suc)
    with True "1.IH" show ?thesis
      by (subst flag_count_loop.simps) simp
  next
    case False
    then show ?thesis using "1.prems"
      by (subst flag_count_loop.simps) (auto simp: Cons_nth_drop_Suc [symmetric] le_less)
  qed
qed

lemma flag_count_eq: "flag_count_loop argv 1 = Suc (length (eligible argv))"
proof (cases argv)
  case Nil
  then show ?thesis by (subst flag_count_loop.simps) (simp add: eligible_def)
next
  case (Cons a rest)
  then show ?thesis using flag_count_loop_eq [of 1 argv]
    by (simp add: eligible_def drop_Suc)
qed

lemma eligible_nth:
  assumes "1 \<le> i" "i \<le> length (eligible argv)"
  shows "eligible argv ! (i - 1) = argv ! i"
proof -
  from assms have "i - 1 < length (takeWhile (\<lambda>tok. tok \<noteq> ''--'') (tl argv))"
    by (simp add: eligible_def)
  then have "eligible argv ! (i - 1) = tl argv ! (i - 1)"
    unfolding eligible_def by (rule takeWhile_nth)
  moreover have "i - 1 < length (tl argv)"
    using assms length_takeWhile_le [of "\<lambda>tok. tok \<noteq> ''--''" "tl argv"]
    by (simp add: eligible_def)
  ultimately show ?thesis using assms by (simp add: nth_tl)
qed

lemma eligible_length: "length (eligible argv) \<le> length argv - 1"
  using length_takeWhile_le [of "\<lambda>tok. tok \<noteq> ''--''" "tl argv"]
  by (simp add: eligible_def)

lemma after_eligible:
  assumes "Suc (length (eligible argv)) < length argv"
  shows "argv ! Suc (length (eligible argv)) = ''--''"
proof -
  let ?P = "\<lambda>tok. tok \<noteq> ''--''"
  from assms have "length (takeWhile ?P (tl argv)) < length (tl argv)"
    by (simp add: eligible_def)
  then have "\<not> ?P (tl argv ! length (takeWhile ?P (tl argv)))"
    by (rule nth_length_takeWhile)
  with assms show ?thesis
    by (simp add: eligible_def nth_tl)
qed

lemma next_token_test:
  assumes "1 \<le> i" "i \<le> length (eligible argv)"
  shows "(int i = int (length argv) - 1 \<or> char_at (argv ! (i + 1)) 0 = Some CHR ''-'') \<longleftrightarrow>
         (case drop i (eligible argv) of [] \<Rightarrow> True | nxt # _ \<Rightarrow> begins_with_dash nxt)"
proof (cases "i < length (eligible argv)")
  case True
  then have "drop i (eligible argv) = argv ! (i + 1) # drop (i + 1) (eligible argv)"
    using eligible_nth [of "i + 1" argv] by (simp add: Cons_nth_drop_Suc [symmetric])
  moreover have "int i \<noteq> int (length argv) - 1"
    using True eligible_length [of argv] by linarith
  ultimately show ?thesis by (simp add: char_at_0_dash)
next
  case False
  with assms have i: "i = length (eligible argv)" by simp
  show ?thesis
  proof (cases "Suc i < length argv")
    case True
    then have "argv ! (i + 1) = ''--''" using after_eligible [of argv] i by simp
    then show ?thesis using i by (simp add: char_at_def)
  next
    case False
    then have "int i = int (length argv) - 1"
      using i eligible_length [of argv] assms by linarith
    then show ?thesis using i by simp
  qed
qed

lemma find_argument_loop_eq:
  "1 \<le> i \<Longrightarrow> i \<le> Suc (length (eligible argv)) \<Longrightarrow>
   find_argument_loop name argv (Suc (length (eligible argv))) i =
   spec_find_argument name (drop (i - 1) (eligible argv))"
proof (induction "Suc (length (eligible argv)) - i" arbitrary: i)
  case 0
  then have "i = Suc (length (eligible argv))" by simp
  then show ?case by (subst find_argument_loop.simps) simp
next
  case (Suc d)
  then have lt: "i \<le> length (eligible argv)" and pos: "1 \<le> i" by simp_all
  have IH: "find_argument_loop name argv (Suc (length (eligible argv))) (i + 1) =
            spec_find_argument name (drop i (eligible argv))"
    using Suc.hyps(1) [of "i + 1"] Suc.hyps(2) lt by simp
  have unfold: "drop (i - 1) (eligible argv) = argv ! i # drop i (eligible argv)"
    using eligible_nth [OF pos lt] pos lt
    by (metis Cons_nth_drop_Suc Suc_diff_1 less_eq_Suc_le One_nat_def)
  show ?case
  proof (cases "matches name (argv ! i)")
    case False
    then show ?thesis using lt IH unfold token_test [of "argv ! i" name]
      by (subst find_argument_loop.simps) auto
  next
    case True
    note m = True
    show ?thesis
    proof (cases "argv ! i = name")
      case True
      then have exact: "char_at (argv ! i) (length name) = None" by (simp add: char_at_def)
      show ?thesis
      proof (cases "drop i (eligible argv)")
        case Nil
        then show ?thesis
          using lt m True exact unfold token_test [of "argv ! i" name] next_token_test [OF pos lt, of]
          by (subst find_argument_loop.simps) auto
      next
        case (Cons nxt rest)
        then have "nxt = argv ! (i + 1)"
          using eligible_nth [of "i + 1" argv] lt
          by (metis Suc_eq_plus1 add_diff_cancel_right' drop_eq_Nil2 hd_drop_conv_nth le_add2 linorder_not_le list.discI list.sel(1) not_less_eq_eq)
        then show ?thesis
          using lt m True exact unfold Cons token_test [of "argv ! i" name] next_token_test [OF pos lt]
          by (subst find_argument_loop.simps) auto
      qed
    next
      case False
      with m have pre: "prefix (name @ ''='') (argv ! i)" by (simp add: matches_def)
      then have "prefix name (argv ! i)" by (rule append_prefixD)
      then have "char_at (argv ! i) (length name) = Some CHR ''=''"
        using pre by (simp add: prefix_eq_char)
      then show ?thesis
        using lt m False unfold token_test [of "argv ! i" name]
        by (subst find_argument_loop.simps) auto
    qed
  qed
qed

lemma find_argument_eq_spec: "find_argument name argv = spec_find_argument name (eligible argv)"
  using find_argument_loop_eq [of 1 argv name] flag_count_eq [of argv]
  by (simp add: find_argument_def)

lemma boundary_le_length: "boundary argv \<le> length argv"
  using eligible_length [of argv] by (cases argv) (simp_all add: boundary_def)

lemma boundary_is_terminator: "boundary argv < length argv \<Longrightarrow> argv ! boundary argv = ''--''"
  using after_eligible [of argv] by (cases argv) (simp_all add: boundary_def)

lemma before_boundary:
  assumes "1 \<le> i" "i < boundary argv"
  shows "argv ! i \<noteq> ''--''"
proof -
  from assms have le: "i \<le> length (eligible argv)"
    by (cases argv) (simp_all add: boundary_def)
  then have "eligible argv ! (i - 1) \<in> set (takeWhile (\<lambda>tok. tok \<noteq> ''--'') (tl argv))"
    using assms(1) by (simp add: eligible_def)
  then have "eligible argv ! (i - 1) \<noteq> ''--''"
    by (rule set_takeWhileD [THEN conjunct2])
  then show ?thesis using eligible_nth [OF assms(1) le] by simp
qed

lemma boundary_eligible: "1 \<le> i \<Longrightarrow> i < boundary argv \<longleftrightarrow> i \<le> length (eligible argv)"
  by (cases argv) (auto simp: boundary_def eligible_def)

lemma spec_find_argument_None:
  "spec_find_argument name toks = None \<longleftrightarrow> (\<forall>tok \<in> set toks. \<not> matches name tok)"
  by (induction toks) auto

lemma spec_find_argument_first:
  "k < length toks \<Longrightarrow> matches name (toks ! k) \<Longrightarrow> (\<forall>j < k. \<not> matches name (toks ! j)) \<Longrightarrow>
   spec_find_argument name toks =
   Some (if toks ! k = name
         then (if Suc k = length toks \<or> begins_with_dash (toks ! Suc k) then [] else toks ! Suc k)
         else drop (length name + 1) (toks ! k))"
proof (induction toks arbitrary: k)
  case Nil
  then show ?case by simp
next
  case (Cons tok rest)
  show ?case
  proof (cases k)
    case 0
    with Cons.prems show ?thesis by (cases rest) auto
  next
    case (Suc k')
    with Cons.prems have "\<not> matches name tok" by auto
    moreover have "\<forall>j < k'. \<not> matches name (rest ! j)"
      using Cons.prems(3) Suc by auto
    ultimately show ?thesis
      using Cons.IH [of k'] Cons.prems(1,2) Suc by simp
  qed
qed

lemma eligible_match_iff:
  "(\<exists>i. 1 \<le> i \<and> i < boundary argv \<and> matches name (argv ! i)) \<longleftrightarrow>
   (\<exists>tok \<in> set (eligible argv). matches name tok)"
proof
  assume "\<exists>i. 1 \<le> i \<and> i < boundary argv \<and> matches name (argv ! i)"
  then obtain i where i: "1 \<le> i" "i < boundary argv" "matches name (argv ! i)" by blast
  then have le: "i \<le> length (eligible argv)" by (simp add: boundary_eligible)
  then have "eligible argv ! (i - 1) \<in> set (eligible argv)" using i(1) by simp
  then show "\<exists>tok \<in> set (eligible argv). matches name tok"
    using eligible_nth [OF i(1) le] i(3) by auto
next
  assume "\<exists>tok \<in> set (eligible argv). matches name tok"
  then obtain k where k: "k < length (eligible argv)" "matches name (eligible argv ! k)"
    by (auto simp: in_set_conv_nth)
  then have "1 \<le> Suc k" "Suc k < boundary argv" "matches name (argv ! Suc k)"
    using eligible_nth [of "Suc k" argv] by (simp_all add: boundary_eligible)
  then show "\<exists>i. 1 \<le> i \<and> i < boundary argv \<and> matches name (argv ! i)" by blast
qed

lemma find_argument_at_first_match:
  assumes "1 \<le> i" and "i < boundary argv" and "matches name (argv ! i)"
    and "\<forall>j. 1 \<le> j \<and> j < i \<longrightarrow> \<not> matches name (argv ! j)"
  shows "find_argument name argv =
         Some (if argv ! i = name
               then (if i + 1 = boundary argv \<or> begins_with_dash (argv ! (i + 1)) then []
                     else argv ! (i + 1))
               else drop (length name + 1) (argv ! i))"
proof -
  let ?toks = "eligible argv"
  from assms(1,2) have le: "i \<le> length ?toks" by (simp add: boundary_eligible)
  have b: "boundary argv = Suc (length ?toks)"
    using assms(2) by (cases argv) (simp_all add: boundary_def)
  have cur: "?toks ! (i - 1) = argv ! i" by (rule eligible_nth [OF assms(1) le])
  have earlier: "\<forall>j < i - 1. \<not> matches name (?toks ! j)"
  proof (intro allI impI)
    fix j assume "j < i - 1"
    then have "1 \<le> Suc j" "Suc j < i" "Suc j \<le> length ?toks" using le by simp_all
    then show "\<not> matches name (?toks ! j)"
      using assms(4) eligible_nth [of "Suc j" argv] by auto
  qed
  have nxt: "i + 1 \<noteq> boundary argv \<Longrightarrow> ?toks ! i = argv ! (i + 1)"
    using eligible_nth [of "i + 1" argv] le b by simp
  have "spec_find_argument name ?toks =
        Some (if ?toks ! (i - 1) = name
              then (if Suc (i - 1) = length ?toks \<or> begins_with_dash (?toks ! Suc (i - 1)) then []
                    else ?toks ! Suc (i - 1))
              else drop (length name + 1) (?toks ! (i - 1)))"
    using assms(1,3) le cur earlier by (intro spec_find_argument_first) simp_all
  then show ?thesis
    using assms(1) cur nxt b by (auto simp: find_argument_eq_spec)
qed

text \<open>
  Claim C2. For every argument vector and every flag name, \<open>find_argument\<close> returns
  "not found" exactly when no token at an index from 1 up to, but not including, the
  flag boundary matches the name (exactly, or as the name followed by \<open>=\<close>). The
  program name at index 0 and the tokens at or after the boundary never affect the
  result: two vectors with the same eligible tokens give the same result.
\<close>

theorem find_argument_not_found_iff:
  "(find_argument name argv = None \<longleftrightarrow>
      \<not> (\<exists>i. 1 \<le> i \<and> i < boundary argv \<and> matches name (argv ! i))) \<and>
   (\<forall>argv'. eligible argv' = eligible argv \<longrightarrow>
      find_argument name argv' = find_argument name argv)"
proof (rule conjI)
  have "find_argument name argv = None \<longleftrightarrow> \<not> (\<exists>tok \<in> set (eligible argv). matches name tok)"
    by (simp add: find_argument_eq_spec spec_find_argument_None)
  then show "find_argument name argv = None \<longleftrightarrow>
      \<not> (\<exists>i. 1 \<le> i \<and> i < boundary argv \<and> matches name (argv ! i))"
    by (simp only: eligible_match_iff)
  show "\<forall>argv'. eligible argv' = eligible argv \<longrightarrow>
      find_argument name argv' = find_argument name argv"
    by (simp add: find_argument_eq_spec)
qed

theorem find_argument_not_found_iff_witness:
  "find_argument ''x'' [''prog'', ''y'', ''5'', ''--'', ''x''] = None \<and>
   eligible [''--'', ''y'', ''5''] = eligible [''prog'', ''y'', ''5'', ''--'', ''x''] \<and>
   find_argument ''x'' [''--'', ''y'', ''5''] = find_argument ''x'' [''prog'', ''y'', ''5'', ''--'', ''x''] \<and>
   find_argument ''y'' [''prog'', ''y'', ''5'', ''--'', ''x''] \<noteq> None"
proof -
  let ?argv = "[''prog'', ''y'', ''5'', ''--'', ''x'']"
  have b: "boundary ?argv = 3" by (simp add: boundary_def eligible_def)
  have el: "eligible [''--'', ''y'', ''5''] = eligible ?argv" by (simp add: eligible_def)
  have no: "\<not> (\<exists>i. 1 \<le> i \<and> i < boundary ?argv \<and> matches ''x'' (?argv ! i))"
  proof
    assume "\<exists>i. 1 \<le> i \<and> i < boundary ?argv \<and> matches ''x'' (?argv ! i)"
    then obtain i where "1 \<le> i" "i < 3" "matches ''x'' (?argv ! i)" using b by auto
    then have "i = 1 \<or> i = 2" by arith
    with \<open>matches ''x'' (?argv ! i)\<close> show False by (auto simp: matches_def)
  qed
  have yes: "\<exists>i. 1 \<le> i \<and> i < boundary ?argv \<and> matches ''y'' (?argv ! i)"
    using b by (intro exI [of _ 1]) (simp add: matches_def)
  show ?thesis
    using find_argument_not_found_iff [of "''x''" ?argv] find_argument_not_found_iff [of "''y''" ?argv]
      no yes el by blast
qed

text \<open>
  Claim C3. When some eligible token matches, the result is determined by the first
  one, at index \<open>i\<close>, whatever comes later: a bare flag that is the last eligible token
  (also when the next token is the \<open>--\<close> of the boundary) or is followed by a token
  beginning with \<open>-\<close> gives the empty string; a token with \<open>=\<close> gives the text after
  the \<open>=\<close>, possibly empty; otherwise the following token is the value.
\<close>

theorem find_argument_first_match:
  assumes "1 \<le> i" and "i < boundary argv" and "matches name (argv ! i)"
    and "\<forall>j. 1 \<le> j \<and> j < i \<longrightarrow> \<not> matches name (argv ! j)"
  shows "find_argument name argv =
         Some (if argv ! i = name
               then (if i + 1 = boundary argv \<or> begins_with_dash (argv ! (i + 1)) then []
                     else argv ! (i + 1))
               else drop (length name + 1) (argv ! i))"
  using assms by (rule find_argument_at_first_match)

theorem find_argument_first_match_witness:
  "find_argument ''x'' [''prog'', ''y'', ''x'', ''--'', ''x=1''] = Some [] \<and>
   find_argument ''x'' [''prog'', ''x=5'', ''x'', ''7''] = Some ''5'' \<and>
   find_argument ''x'' [''prog'', ''x'', ''7'', ''x=5''] = Some ''7'' \<and>
   find_argument ''x'' [''prog'', ''x'', ''-7'', ''x=5''] = Some []"
proof -
  have 1: "find_argument ''x'' [''prog'', ''y'', ''x'', ''--'', ''x=1''] = Some []"
    using find_argument_first_match [of 2 "[''prog'', ''y'', ''x'', ''--'', ''x=1'']" "''x''"]
    by (simp add: boundary_def eligible_def matches_def less_Suc_eq)
  have 2: "find_argument ''x'' [''prog'', ''x=5'', ''x'', ''7''] = Some ''5''"
    using find_argument_first_match [of 1 "[''prog'', ''x=5'', ''x'', ''7'']" "''x''"]
    by (simp add: boundary_def eligible_def matches_def)
  have 3: "find_argument ''x'' [''prog'', ''x'', ''7'', ''x=5''] = Some ''7''"
    using find_argument_first_match [of 1 "[''prog'', ''x'', ''7'', ''x=5'']" "''x''"]
    by (simp add: boundary_def eligible_def matches_def begins_with_dash_def)
  have 4: "find_argument ''x'' [''prog'', ''x'', ''-7'', ''x=5''] = Some []"
    using find_argument_first_match [of 1 "[''prog'', ''x'', ''-7'', ''x=5'']" "''x''"]
    by (simp add: boundary_def eligible_def matches_def begins_with_dash_def)
  from 1 2 3 4 show ?thesis by simp
qed

section \<open>Properties of find_bool_argument\<close>

lemma char_at_0_None: "char_at text 0 = None \<longleftrightarrow> text = []"
  by (simp add: char_at_def)

lemma find_argument_None_iff:
  "find_argument name argv = None \<longleftrightarrow>
   \<not> (\<exists>i. 1 \<le> i \<and> i < boundary argv \<and> matches name (argv ! i))"
proof -
  have "find_argument name argv = None \<longleftrightarrow> \<not> (\<exists>tok \<in> set (eligible argv). matches name tok)"
    by (simp add: find_argument_eq_spec spec_find_argument_None)
  then show ?thesis by (simp only: eligible_match_iff)
qed

lemma find_bool_argument_eq:
  "find_bool_argument name argv =
     (case find_argument name argv of
        None \<Rightarrow> Inr False
      | Some text \<Rightarrow> if text = [] then Inr True else Inl (InvalidBooleanValue text name))"
  by (simp add: find_bool_argument_def char_at_0_None split: option.splits)

text \<open>
  Claim C6. \<open>find_bool_argument\<close> returns false when the flag is absent (no eligible
  token matches), returns true when the flag is present with an empty value, and exits
  with \<open>InvalidBooleanValue\<close> when the flag is present with a non-empty value. The empty
  value arises both from a bare flag (the last eligible token, or followed by a token
  beginning with \<open>-\<close>) and from \<open>name=\<close>.
\<close>

theorem find_bool_argument_cases:
  "(\<not> (\<exists>i. 1 \<le> i \<and> i < boundary argv \<and> matches name (argv ! i)) \<longrightarrow>
      find_bool_argument name argv = Inr False) \<and>
   (find_argument name argv = Some [] \<longrightarrow> find_bool_argument name argv = Inr True) \<and>
   (\<forall>text. find_argument name argv = Some text \<and> text \<noteq> [] \<longrightarrow>
      find_bool_argument name argv = Inl (InvalidBooleanValue text name)) \<and>
   (\<forall>i. 1 \<le> i \<and> i < boundary argv \<and> (\<forall>j. 1 \<le> j \<and> j < i \<longrightarrow> \<not> matches name (argv ! j)) \<and>
        (argv ! i = name @ ''='' \<or>
         argv ! i = name \<and> (i + 1 = boundary argv \<or> begins_with_dash (argv ! (i + 1)))) \<longrightarrow>
      find_bool_argument name argv = Inr True)"
proof (intro conjI allI impI)
  assume "\<not> (\<exists>i. 1 \<le> i \<and> i < boundary argv \<and> matches name (argv ! i))"
  then have "find_argument name argv = None"
    using find_argument_None_iff [of name argv] by blast
  then show "find_bool_argument name argv = Inr False" by (simp add: find_bool_argument_eq)
next
  assume "find_argument name argv = Some []"
  then show "find_bool_argument name argv = Inr True" by (simp add: find_bool_argument_eq)
next
  fix t assume "find_argument name argv = Some t \<and> t \<noteq> []"
  then show "find_bool_argument name argv = Inl (InvalidBooleanValue t name)"
    by (simp add: find_bool_argument_eq)
next
  fix i
  assume a: "1 \<le> i \<and> i < boundary argv \<and> (\<forall>j. 1 \<le> j \<and> j < i \<longrightarrow> \<not> matches name (argv ! j)) \<and>
        (argv ! i = name @ ''='' \<or>
         argv ! i = name \<and> (i + 1 = boundary argv \<or> begins_with_dash (argv ! (i + 1))))"
  then have m: "matches name (argv ! i)" by (auto simp: matches_def)
  have "find_argument name argv = Some []"
    using a find_argument_at_first_match [of i argv name] m by auto
  then show "find_bool_argument name argv = Inr True" by (simp add: find_bool_argument_eq)
qed

theorem find_bool_argument_cases_witness:
  "find_bool_argument ''-v'' [''prog'', ''-q'', ''--'', ''-v''] = Inr False \<and>
   find_bool_argument ''-v'' [''prog'', ''-v='', ''x''] = Inr True \<and>
   find_bool_argument ''-v'' [''prog'', ''-q'', ''-v'', ''--'', ''x''] = Inr True \<and>
   find_bool_argument ''-v'' [''prog'', ''-v'', ''-q''] = Inr True \<and>
   find_bool_argument ''-v'' [''prog'', ''-v=yes''] = Inl (InvalidBooleanValue ''yes'' ''-v'') \<and>
   find_bool_argument ''-v'' [''prog'', ''-v'', ''yes''] = Inl (InvalidBooleanValue ''yes'' ''-v'')"
proof -
  let ?a1 = "[''prog'', ''-q'', ''--'', ''-v'']"
  have "\<not> (\<exists>i. 1 \<le> i \<and> i < boundary ?a1 \<and> matches ''-v'' (?a1 ! i))"
    by (auto simp: boundary_def eligible_def matches_def less_Suc_eq)
  then have 1: "find_bool_argument ''-v'' ?a1 = Inr False"
    using find_bool_argument_cases [of ?a1 "''-v''"] by blast
  have 2: "find_bool_argument ''-v'' [''prog'', ''-v='', ''x''] = Inr True"
    using find_bool_argument_cases [of "[''prog'', ''-v='', ''x'']" "''-v''", THEN conjunct2, THEN conjunct2,
        THEN conjunct2, THEN spec, of 1]
    by (simp add: boundary_def eligible_def)
  have 3: "find_bool_argument ''-v'' [''prog'', ''-q'', ''-v'', ''--'', ''x''] = Inr True"
    using find_bool_argument_cases [of "[''prog'', ''-q'', ''-v'', ''--'', ''x'']" "''-v''", THEN conjunct2,
        THEN conjunct2, THEN conjunct2, THEN spec, of 2]
    by (simp add: boundary_def eligible_def matches_def less_Suc_eq)
  have 4: "find_bool_argument ''-v'' [''prog'', ''-v'', ''-q''] = Inr True"
    using find_bool_argument_cases [of "[''prog'', ''-v'', ''-q'']" "''-v''", THEN conjunct2,
        THEN conjunct2, THEN conjunct2, THEN spec, of 1]
    by (simp add: boundary_def eligible_def begins_with_dash_def)
  have f5: "find_argument ''-v'' [''prog'', ''-v=yes''] = Some ''yes''"
    using find_argument_at_first_match [of 1 "[''prog'', ''-v=yes'']" "''-v''"]
    by (simp add: boundary_def eligible_def matches_def)
  have 5: "find_bool_argument ''-v'' [''prog'', ''-v=yes''] = Inl (InvalidBooleanValue ''yes'' ''-v'')"
    using find_bool_argument_cases [of "[''prog'', ''-v=yes'']" "''-v''"] f5 by simp
  have f6: "find_argument ''-v'' [''prog'', ''-v'', ''yes''] = Some ''yes''"
    using find_argument_at_first_match [of 1 "[''prog'', ''-v'', ''yes'']" "''-v''"]
    by (simp add: boundary_def eligible_def matches_def begins_with_dash_def)
  have 6: "find_bool_argument ''-v'' [''prog'', ''-v'', ''yes''] = Inl (InvalidBooleanValue ''yes'' ''-v'')"
    using find_bool_argument_cases [of "[''prog'', ''-v'', ''yes'']" "''-v''"] f6 by simp
  from 1 2 3 4 5 6 show ?thesis by simp
qed

text \<open>
  Claim C8. When the first matching token is a bare flag and the token after it is the
  empty string, \<open>find_argument\<close> takes that token as the value and returns the empty
  string, the same result as for a flag present with no value; so
  \<open>find_bool_argument\<close> returns true on such a vector.
\<close>

theorem empty_token_after_bare_flag:
  assumes "1 \<le> i" and "i < boundary argv" and "argv ! i = name"
    and "\<forall>j. 1 \<le> j \<and> j < i \<longrightarrow> \<not> matches name (argv ! j)"
    and "i + 1 < length argv" and "argv ! (i + 1) = []"
  shows "find_argument name argv = Some [] \<and> find_bool_argument name argv = Inr True"
proof -
  have "matches name (argv ! i)" using assms(3) by (simp add: matches_def)
  then have "find_argument name argv = Some []"
    using find_argument_at_first_match [OF assms(1,2) _ assms(4)] assms(3,6) by simp
  then show ?thesis by (simp add: find_bool_argument_eq)
qed

theorem empty_token_after_bare_flag_witness:
  "find_argument ''-v'' [''prog'', ''-v'', '''', ''x''] = Some [] \<and>
   find_bool_argument ''-v'' [''prog'', ''-v'', '''', ''x''] = Inr True"
  using empty_token_after_bare_flag [of 1 "[''prog'', ''-v'', '''', ''x'']" "''-v''"]
  by (simp add: boundary_def eligible_def)

section \<open>Properties of find_enum_argument\<close>

lemma enum_loop_eq:
  "enum_loop text vs k =
     (if text \<in> set vs then Some (k + length (takeWhile (\<lambda>v. v \<noteq> text) vs)) else None)"
  by (induction vs arbitrary: k) auto

text \<open>
  Claim C9. When the flag is present, \<open>find_enum_argument\<close> never falls back to
  \<open>default_index\<close>: the text, also the empty text of a bare flag, is compared with the
  known values; the result is the index of the first known value equal to it, and the
  call exits with \<open>UnrecognizedEnumValue\<close> when there is none, whatever the default
  index is.
\<close>

theorem find_enum_argument_present:
  assumes "find_argument name argv = Some text"
  shows "find_enum_argument name default_index known_values argv =
           (if text \<in> set known_values
            then Inr (word_of_nat (length (takeWhile (\<lambda>v. v \<noteq> text) known_values)))
            else Inl (UnrecognizedEnumValue text name known_values default_index))"
  using assms by (simp add: find_enum_argument_def enum_loop_eq)

theorem find_enum_argument_present_witness:
  "find_enum_argument ''mode'' 1 [''a'', ''b'', ''c''] [''prog'', ''mode''] =
     Inl (UnrecognizedEnumValue [] ''mode'' [''a'', ''b'', ''c''] 1) \<and>
   find_enum_argument ''mode'' 1 [''a'', [], ''c''] [''prog'', ''mode''] = Inr 1 \<and>
   find_enum_argument ''mode'' 0 [''a'', ''b'', ''c''] [''prog'', ''mode'', ''c''] = Inr 2"
proof -
  have bare: "find_argument ''mode'' [''prog'', ''mode''] = Some []"
    using find_argument_at_first_match [of 1 "[''prog'', ''mode'']" "''mode''"]
    by (simp add: boundary_def eligible_def matches_def)
  have val: "find_argument ''mode'' [''prog'', ''mode'', ''c''] = Some ''c''"
    using find_argument_at_first_match [of 1 "[''prog'', ''mode'', ''c'']" "''mode''"]
    by (simp add: boundary_def eligible_def matches_def begins_with_dash_def)
  show ?thesis
    using find_enum_argument_present [OF bare, of 1 "[''a'', ''b'', ''c'']"]
      find_enum_argument_present [OF bare, of 1 "[''a'', [], ''c'']"]
      find_enum_argument_present [OF val, of 0 "[''a'', ''b'', ''c'']"]
    by simp
qed

section \<open>Properties of find_int_argument\<close>

lemma isdigit_not_space: "isdigit c \<Longrightarrow> \<not> isspace c"
  by (auto simp: isspace_def isdigit_def)

lemma isdigit_not_sign: "isdigit c \<Longrightarrow> c \<noteq> CHR ''-'' \<and> c \<noteq> CHR ''+''"
  by (auto simp: isdigit_def)

lemma sign_not_space: "\<not> isspace CHR ''-''" "\<not> isspace CHR ''+''"
  by (simp_all add: isspace_def)

lemma sint_long:
  assumes "LONG_MIN \<le> x" "x \<le> LONG_MAX"
  shows "sint (word_of_int x :: c_long) = x"
proof -
  have "signed_take_bit (LENGTH(64) - 1) x = x"
    using assms by (intro signed_take_bit_int_eq_self) (simp_all add: LONG_MIN_def LONG_MAX_def)
  then show ?thesis by (simp add: sint_sbintrunc')
qed

lemma sint_int_range: "- (2 ^ 31) \<le> sint (w :: c_int) \<and> sint w < 2 ^ 31"
  using sint_ge [of w] sint_lt [of w] by simp

lemma sint_narrow:
  assumes "sint (mn :: c_int) \<le> x" "x \<le> sint (mx :: c_int)"
  shows "sint (word_of_int x :: c_int) = x"
proof -
  have "- (2 ^ 31) \<le> x" "x < 2 ^ 31"
    using assms sint_int_range [of mn] sint_int_range [of mx] by linarith+
  then have "signed_take_bit (LENGTH(32) - 1) x = x"
    by (intro signed_take_bit_int_eq_self) simp_all
  then show ?thesis by (simp add: sint_sbintrunc')
qed

lemma clamp_outside:
  assumes "v < sint (mn :: c_int) \<or> sint (mx :: c_int) < v"
  shows "max LONG_MIN (min LONG_MAX v) < sint mn \<or> sint mx < max LONG_MIN (min LONG_MAX v)"
  using assms sint_int_range [of mn] sint_int_range [of mx]
  by (auto simp: LONG_MIN_def LONG_MAX_def max_def min_def)

lemma clamp_inside:
  assumes "sint (mn :: c_int) \<le> max LONG_MIN (min LONG_MAX v)"
    and "max LONG_MIN (min LONG_MAX v) \<le> sint (mx :: c_int)"
  shows "max LONG_MIN (min LONG_MAX v) = v"
  using assms sint_int_range [of mn] sint_int_range [of mx]
  by (auto simp: LONG_MIN_def LONG_MAX_def max_def min_def split: if_splits)

lemma clamp_range: "LONG_MIN \<le> max LONG_MIN (min LONG_MAX v) \<and> max LONG_MIN (min LONG_MAX v) \<le> LONG_MAX"
  by (simp add: LONG_MIN_def LONG_MAX_def)

lemma strtol_integer_text:
  assumes "integer_text ws sign ds"
  shows "strtol (ws @ sign @ ds) =
         (word_of_int (max LONG_MIN (min LONG_MAX (signed_value sign ds))), [])"
proof -
  from assms have ws: "\<And>c. c \<in> set ws \<Longrightarrow> isspace c"
    and sign: "sign = [] \<or> sign = ''+'' \<or> sign = ''-''"
    and ds: "ds \<noteq> []" "\<And>c. c \<in> set ds \<Longrightarrow> isdigit c"
    by (auto simp: integer_text_def list_all_iff)
  obtain d rest where d: "ds = d # rest" using ds(1) by (cases ds) auto
  then have dd: "isdigit d" using ds(2) by simp
  have "dropWhile isspace (ws @ sign @ ds) = dropWhile isspace (sign @ ds)"
    using ws by (rule dropWhile_append2)
  also have "\<dots> = sign @ ds"
    using sign d isdigit_not_space [OF dd] sign_not_space by auto
  finally have s: "dropWhile isspace (ws @ sign @ ds) = sign @ ds" .
  have body: "(if sign @ ds \<noteq> [] \<and> (hd (sign @ ds) = CHR ''-'' \<or> hd (sign @ ds) = CHR ''+'')
               then tl (sign @ ds) else sign @ ds) = ds"
    using sign d isdigit_not_sign [OF dd] by auto
  have neg: "(sign @ ds \<noteq> [] \<and> hd (sign @ ds) = CHR ''-'') \<longleftrightarrow> sign = ''-''"
    using sign d isdigit_not_sign [OF dd] by auto
  have tw: "takeWhile isdigit ds = ds" using ds(2) by simp
  have dw: "dropWhile isdigit ds = []" using ds(2) by simp
  show ?thesis
    unfolding strtol_def Let_def s body neg tw dw signed_value_def
    using ds(1) by simp
qed

lemma strtol_full_parse:
  assumes "text \<noteq> []" and "snd (strtol text) = []"
  shows "\<exists>ws sign ds. text = ws @ sign @ ds \<and> integer_text ws sign ds"
proof -
  define ws where "ws = takeWhile isspace text"
  define s where "s = dropWhile isspace text"
  define sign where "sign = (if s \<noteq> [] \<and> (hd s = CHR ''-'' \<or> hd s = CHR ''+'') then [hd s] else [])"
  define body where "body = (if s \<noteq> [] \<and> (hd s = CHR ''-'' \<or> hd s = CHR ''+'') then tl s else s)"
  have decomp: "text = ws @ sign @ body"
    unfolding ws_def sign_def body_def s_def
    by auto
  have st: "strtol text =
      (if takeWhile isdigit body = [] then (0, text)
       else (word_of_int (max LONG_MIN (min LONG_MAX
               (if s \<noteq> [] \<and> hd s = CHR ''-'' then - decimal (takeWhile isdigit body)
                else decimal (takeWhile isdigit body)))),
             dropWhile isdigit body))"
    unfolding strtol_def Let_def body_def s_def by (rule refl)
  have digits: "takeWhile isdigit body \<noteq> []"
  proof
    assume "takeWhile isdigit body = []"
    then have "strtol text = (0, text)" by (simp add: st)
    with assms show False by simp
  qed
  then have "snd (strtol text) = dropWhile isdigit body" by (simp add: st)
  then have "dropWhile isdigit body = []"
    using assms(2) by simp
  then have all: "list_all isdigit body" by (simp add: list_all_iff)
  have "body \<noteq> []" using digits by auto
  moreover have "list_all isspace ws" by (auto simp: ws_def list_all_iff dest: set_takeWhileD)
  moreover have "sign = [] \<or> sign = ''+'' \<or> sign = ''-''" by (auto simp: sign_def)
  ultimately have "integer_text ws sign body" using all by (simp add: integer_text_def)
  with decomp show ?thesis by blast
qed

lemma find_int_argument_absent:
  assumes "find_argument name argv = None \<or> find_argument name argv = Some []"
  shows "find_int_argument name d mn mx argv =
         (if sint d < sint mn \<or> sint mx < sint d then Inl (MissingRequiredValue Int_flag name)
          else Inr d)"
  using assms by (auto simp: find_int_argument_def char_at_0_None)

lemma find_int_argument_present:
  assumes "find_argument name argv = Some t" and "t \<noteq> []" and "strtol t = (i, processed)"
  shows "find_int_argument name d mn mx argv =
         (if processed \<noteq> [] then Inl (InvalidIntegerValue t name)
          else if sint i < sint mn \<or> sint mx < sint i then Inl (IntegerOutOfRange t name mn i mx)
          else Inr (word_of_int (sint i)))"
  using assms by (simp add: find_int_argument_def char_at_0_None)

text \<open>
  Claim C5. When the flag is absent or present with an empty value,
  \<open>find_int_argument\<close> exits with \<open>MissingRequiredValue\<close> if the default lies
  outside \<open>[min, max]\<close> and returns the default otherwise. When a non-empty value is
  present, it exits with \<open>InvalidIntegerValue\<close> if characters remain after the parse,
  exits with \<open>IntegerOutOfRange\<close> if the parsed value lies outside \<open>[min, max]\<close>, and
  otherwise returns the parsed value. Nothing remains after the parse exactly when the
  text is optional white space, an optional sign and one or more decimal digits.
\<close>

theorem find_int_argument_cases:
  "((find_argument name argv = None \<or> find_argument name argv = Some []) \<longrightarrow>
      find_int_argument name d mn mx argv =
        (if sint d < sint mn \<or> sint mx < sint d then Inl (MissingRequiredValue Int_flag name)
         else Inr d)) \<and>
   (\<forall>t i processed. find_argument name argv = Some t \<and> t \<noteq> [] \<and> strtol t = (i, processed) \<longrightarrow>
      (processed \<noteq> [] \<longrightarrow>
         find_int_argument name d mn mx argv = Inl (InvalidIntegerValue t name)) \<and>
      (processed = [] \<and> (sint i < sint mn \<or> sint mx < sint i) \<longrightarrow>
         find_int_argument name d mn mx argv = Inl (IntegerOutOfRange t name mn i mx)) \<and>
      (processed = [] \<and> sint mn \<le> sint i \<and> sint i \<le> sint mx \<longrightarrow>
         find_int_argument name d mn mx argv = Inr (word_of_int (sint i)) \<and>
         sint (word_of_int (sint i) :: c_int) = sint i)) \<and>
   (\<forall>t. t \<noteq> [] \<longrightarrow>
      (snd (strtol t) = [] \<longleftrightarrow> (\<exists>ws sign ds. t = ws @ sign @ ds \<and> integer_text ws sign ds)))"
proof (intro conjI allI impI)
  assume "find_argument name argv = None \<or> find_argument name argv = Some []"
  then show "find_int_argument name d mn mx argv =
        (if sint d < sint mn \<or> sint mx < sint d then Inl (MissingRequiredValue Int_flag name)
         else Inr d)"
    by (rule find_int_argument_absent)
next
  fix t i processed
  assume a: "find_argument name argv = Some t \<and> t \<noteq> [] \<and> strtol t = (i, processed)"
    and "processed \<noteq> []"
  then show "find_int_argument name d mn mx argv = Inl (InvalidIntegerValue t name)"
    using find_int_argument_present [of name argv t i processed d mn mx] by simp
next
  fix t i processed
  assume a: "find_argument name argv = Some t \<and> t \<noteq> [] \<and> strtol t = (i, processed)"
    and "processed = [] \<and> (sint i < sint mn \<or> sint mx < sint i)"
  then show "find_int_argument name d mn mx argv = Inl (IntegerOutOfRange t name mn i mx)"
    using find_int_argument_present [of name argv t i processed d mn mx] by simp
next
  fix t i processed
  assume a: "find_argument name argv = Some t \<and> t \<noteq> [] \<and> strtol t = (i, processed)"
    and b: "processed = [] \<and> sint mn \<le> sint i \<and> sint i \<le> sint mx"
  then show "find_int_argument name d mn mx argv = Inr (word_of_int (sint i))"
    using find_int_argument_present [of name argv t i processed d mn mx] by auto
next
  fix t i processed
  assume "find_argument name argv = Some t \<and> t \<noteq> [] \<and> strtol t = (i, processed)"
    and "processed = [] \<and> sint mn \<le> sint i \<and> sint i \<le> sint mx"
  then show "sint (word_of_int (sint i) :: c_int) = sint i"
    by (intro sint_narrow [of mn _ mx]) simp_all
next
  fix t :: string
  assume "t \<noteq> []"
  then show "snd (strtol t) = [] \<longleftrightarrow> (\<exists>ws sign ds. t = ws @ sign @ ds \<and> integer_text ws sign ds)"
    using strtol_full_parse [of t] strtol_integer_text by fastforce
qed

theorem find_int_argument_cases_witness:
  "find_int_argument ''n'' 3 0 10 [''prog'', ''m=5''] = Inr 3 \<and>
   find_int_argument ''n'' (- 1) 0 10 [''prog'', ''n=''] = Inl (MissingRequiredValue Int_flag ''n'') \<and>
   find_int_argument ''n'' 0 0 10 [''prog'', ''n=7x''] = Inl (InvalidIntegerValue ''7x'' ''n'') \<and>
   find_int_argument ''n'' 0 0 10 [''prog'', ''n=11''] = Inl (IntegerOutOfRange ''11'' ''n'' 0 11 10) \<and>
   find_int_argument ''n'' 0 0 10 [''prog'', ''n=7''] = Inr 7 \<and>
   (\<exists>ws sign ds. ''7'' = ws @ sign @ ds \<and> integer_text ws sign ds)"
proof -
  have absent: "find_argument ''n'' [''prog'', ''m=5''] = None" by code_simp
  have empty: "find_argument ''n'' [''prog'', ''n=''] = Some []" by code_simp
  have a1: "find_argument ''n'' [''prog'', ''n=7x''] = Some ''7x''" by code_simp
  have a2: "find_argument ''n'' [''prog'', ''n=11''] = Some ''11''" by code_simp
  have a3: "find_argument ''n'' [''prog'', ''n=7''] = Some ''7''" by code_simp
  have s1: "strtol ''7x'' = (7, ''x'')" by code_simp
  have s2: "strtol ''11'' = (11, [])" by code_simp
  have s3: "strtol ''7'' = (7, [])" by code_simp
  have 1: "find_int_argument ''n'' 3 0 10 [''prog'', ''m=5''] = Inr 3"
    using find_int_argument_cases [of "''n''" "[''prog'', ''m=5'']" 3 0 10] absent by simp
  have 2: "find_int_argument ''n'' (- 1) 0 10 [''prog'', ''n=''] = Inl (MissingRequiredValue Int_flag ''n'')"
    using find_int_argument_cases [of "''n''" "[''prog'', ''n='']" "- 1" 0 10] empty by simp
  have 3: "find_int_argument ''n'' 0 0 10 [''prog'', ''n=7x''] = Inl (InvalidIntegerValue ''7x'' ''n'')"
    using find_int_argument_cases [of "''n''" "[''prog'', ''n=7x'']" 0 0 10] a1 s1 by simp
  have 4: "find_int_argument ''n'' 0 0 10 [''prog'', ''n=11''] = Inl (IntegerOutOfRange ''11'' ''n'' 0 11 10)"
    using find_int_argument_cases [of "''n''" "[''prog'', ''n=11'']" 0 0 10] a2 s2 by simp
  have 5: "find_int_argument ''n'' 0 0 10 [''prog'', ''n=7''] = Inr 7"
    using find_int_argument_cases [of "''n''" "[''prog'', ''n=7'']" 0 0 10] a3 s3 by simp
  have 6: "\<exists>ws sign ds. ''7'' = ws @ sign @ ds \<and> integer_text ws sign ds"
    using find_int_argument_cases [of "''n''" "[''prog'', ''n=7'']" 0 0 10, THEN conjunct2, THEN conjunct2,
        THEN spec, of "''7''"] s3 by simp
  from 1 2 3 4 5 6 show ?thesis by blast
qed

lemma strtol_in_range:
  assumes "integer_text ws sign ds"
  shows "sint (fst (strtol (ws @ sign @ ds))) = max LONG_MIN (min LONG_MAX (signed_value sign ds))"
  using clamp_range [of "signed_value sign ds"]
  by (simp add: strtol_integer_text [OF assms] sint_long)

text \<open>
  Claim C10. The range check of \<open>find_int_argument\<close> is made on the \<open>long\<close> before it
  is narrowed to \<open>int\<close>: every value text that is an integer outside \<open>[min, max]\<close>,
  however large, makes the call exit with \<open>IntegerOutOfRange\<close>; and a value returned
  for a non-empty text is the integer the text denotes, within \<open>[min, max]\<close>, never a
  wrapped or truncated one.
\<close>

theorem find_int_argument_no_wrap:
  "(\<forall>ws sign ds. find_argument name argv = Some (ws @ sign @ ds) \<and> integer_text ws sign ds \<and>
       (signed_value sign ds < sint mn \<or> sint mx < signed_value sign ds) \<longrightarrow>
       find_int_argument name d mn mx argv =
         Inl (IntegerOutOfRange (ws @ sign @ ds) name mn
               (word_of_int (max LONG_MIN (min LONG_MAX (signed_value sign ds)))) mx)) \<and>
   (\<forall>t r. find_argument name argv = Some t \<and> t \<noteq> [] \<and>
       find_int_argument name d mn mx argv = Inr r \<longrightarrow>
       (\<exists>ws sign ds. t = ws @ sign @ ds \<and> integer_text ws sign ds \<and>
          sint r = signed_value sign ds \<and> sint mn \<le> sint r \<and> sint r \<le> sint mx))"
proof (intro conjI allI impI)
  fix ws sign ds
  assume a: "find_argument name argv = Some (ws @ sign @ ds) \<and> integer_text ws sign ds \<and>
       (signed_value sign ds < sint mn \<or> sint mx < signed_value sign ds)"
  let ?t = "ws @ sign @ ds"
  let ?i = "word_of_int (max LONG_MIN (min LONG_MAX (signed_value sign ds))) :: c_long"
  from a have it: "integer_text ws sign ds" by simp
  then have ne: "?t \<noteq> []" by (simp add: integer_text_def)
  have st: "strtol ?t = (?i, [])" by (rule strtol_integer_text [OF it])
  have "sint ?i = max LONG_MIN (min LONG_MAX (signed_value sign ds))"
    using strtol_in_range [OF it] st by simp
  then have "sint ?i < sint mn \<or> sint mx < sint ?i"
    using a clamp_outside [of "signed_value sign ds" mn mx] by simp
  then show "find_int_argument name d mn mx argv = Inl (IntegerOutOfRange ?t name mn ?i mx)"
    using find_int_argument_present [of name argv ?t ?i "[]" d mn mx] a ne st by simp
next
  fix t r
  assume a: "find_argument name argv = Some t \<and> t \<noteq> [] \<and>
       find_int_argument name d mn mx argv = Inr r"
  obtain i processed where st: "strtol t = (i, processed)" by (cases "strtol t")
  have res: "find_int_argument name d mn mx argv =
         (if processed \<noteq> [] then Inl (InvalidIntegerValue t name)
          else if sint i < sint mn \<or> sint mx < sint i then Inl (IntegerOutOfRange t name mn i mx)
          else Inr (word_of_int (sint i)))"
    using a st by (intro find_int_argument_present) simp_all
  with a have p: "processed = []" and lo: "sint mn \<le> sint i" and hi: "sint i \<le> sint mx"
    and r: "r = word_of_int (sint i)"
    by (auto split: if_splits)
  from p st a obtain ws sign ds where d: "t = ws @ sign @ ds" "integer_text ws sign ds"
    using strtol_full_parse [of t] by auto
  have ci: "sint i = max LONG_MIN (min LONG_MAX (signed_value sign ds))"
    using strtol_in_range [OF d(2)] st d(1) by simp
  then have "sint i = signed_value sign ds"
    using clamp_inside [of mn "signed_value sign ds" mx] lo hi by simp
  moreover have "sint r = sint i"
    unfolding r using lo hi by (rule sint_narrow)
  ultimately show "\<exists>ws sign ds. t = ws @ sign @ ds \<and> integer_text ws sign ds \<and>
          sint r = signed_value sign ds \<and> sint mn \<le> sint r \<and> sint r \<le> sint mx"
    using d lo hi by auto
qed

theorem find_int_argument_no_wrap_witness:
  "find_int_argument ''n'' 0 0 10 [''prog'', ''n=4294967297''] =
     Inl (IntegerOutOfRange ''4294967297'' ''n'' 0 4294967297 10) \<and>
   find_int_argument ''n'' 0 0 2147483647 [''prog'', ''n'', ''99999999999999999999999''] =
     Inl (IntegerOutOfRange ''99999999999999999999999'' ''n'' 0 9223372036854775807 2147483647) \<and>
   (\<exists>ws sign ds. '' -3'' = ws @ sign @ ds \<and> integer_text ws sign ds \<and>
      sint (- 3 :: c_int) = signed_value sign ds \<and> sint (- 5 :: c_int) \<le> sint (- 3 :: c_int) \<and>
      sint (- 3 :: c_int) \<le> sint (10 :: c_int))"
proof -
  have a1: "find_argument ''n'' [''prog'', ''n=4294967297''] = Some ''4294967297''" by code_simp
  have a2: "find_argument ''n'' [''prog'', ''n'', ''99999999999999999999999''] =
      Some ''99999999999999999999999''" by code_simp
  have a3: "find_argument ''n'' [''prog'', ''n= -3''] = Some '' -3''" by code_simp
  have t1: "integer_text [] [] ''4294967297''" by code_simp
  have t2: "integer_text [] [] ''99999999999999999999999''" by code_simp
  have v1: "signed_value [] ''4294967297'' = 4294967297" by code_simp
  have v2: "signed_value [] ''99999999999999999999999'' = 99999999999999999999999" by code_simp
  have r3: "find_int_argument ''n'' 0 (- 5) 10 [''prog'', ''n= -3''] = Inr (- 3)" by code_simp
  have 1: "find_int_argument ''n'' 0 0 10 [''prog'', ''n=4294967297''] =
     Inl (IntegerOutOfRange ''4294967297'' ''n'' 0 4294967297 10)"
    using find_int_argument_no_wrap [of "''n''" "[''prog'', ''n=4294967297'']" 0 10 0, THEN conjunct1,
        THEN spec, THEN spec, THEN spec, of "[]" "[]" "''4294967297''"] a1 t1 v1
    by (simp add: LONG_MIN_def LONG_MAX_def)
  have 2: "find_int_argument ''n'' 0 0 2147483647 [''prog'', ''n'', ''99999999999999999999999''] =
     Inl (IntegerOutOfRange ''99999999999999999999999'' ''n'' 0 9223372036854775807 2147483647)"
    using find_int_argument_no_wrap [of "''n''" "[''prog'', ''n'', ''99999999999999999999999'']" 0 2147483647 0,
        THEN conjunct1, THEN spec, THEN spec, THEN spec, of "[]" "[]" "''99999999999999999999999''"] a2 t2 v2
    by (simp add: LONG_MIN_def LONG_MAX_def)
  have 3: "\<exists>ws sign ds. '' -3'' = ws @ sign @ ds \<and> integer_text ws sign ds \<and>
      sint (- 3 :: c_int) = signed_value sign ds \<and> sint (- 5 :: c_int) \<le> sint (- 3 :: c_int) \<and>
      sint (- 3 :: c_int) \<le> sint (10 :: c_int)"
    using find_int_argument_no_wrap [of "''n''" "[''prog'', ''n= -3'']" "- 5" 10 0, THEN conjunct2,
        THEN spec, THEN spec, of "'' -3''" "- 3"] a3 r3
    by simp
  from 1 2 3 show ?thesis by blast
qed

section \<open>Properties of find_float_argument\<close>

lemma float_neq_self: "float_neq f f \<longleftrightarrow> f = NaN"
  by (cases f) simp_all

lemma float_less_NaN: "\<not> float_less NaN x" "\<not> float_less x NaN"
  by (cases x; simp)+

lemma float_range:
  assumes "mn \<noteq> NaN" and "mx \<noteq> NaN"
  shows "float_less f mn \<or> float_less mx f \<or> f = NaN \<longleftrightarrow>
         \<not> (float_le mn f \<and> float_le f mx \<and> f \<noteq> NaN)"
  using assms by (cases f; cases mn; cases mx) auto

lemma find_float_argument_absent:
  assumes "find_argument name argv = None"
  shows "find_float_argument subject convert name d mn mx argv =
         (if float_less d mn \<or> float_less mx d then Inl (MissingRequiredValue Float_flag name)
          else Inr d)"
  using assms by (simp add: find_float_argument_def)

lemma find_float_argument_parsed:
  assumes "find_argument name argv = Some t" and "strtof subject convert t = (f, processed)"
  shows "find_float_argument subject convert name d mn mx argv =
         (if processed \<noteq> [] then Inl (InvalidFloatValue t name)
          else if float_less f mn \<or> float_less mx f \<or> f = NaN
          then Inl (FloatOutOfRange t name mn f mx)
          else Inr f)"
  using assms by (simp add: find_float_argument_def char_at_0_None float_neq_self)

lemma strtof_empty: "strtof subject convert [] = (Finite 0, [])"
  by (simp add: strtof_def)

text \<open>
  Claim C7. In \<open>find_float_argument\<close>, a value that parses with nothing left over is
  returned when it is neither below \<open>min\<close> nor above \<open>max\<close> nor a NaN, and otherwise
  the call exits with \<open>FloatOutOfRange\<close>; for bounds that are not NaN this is
  \<open>min <= value <= max\<close> and not NaN. The NaN test is the self-inequality \<open>f != f\<close>,
  true of NaN only. For an absent flag the default is checked as in the integer path,
  with \<open><\<close> and \<open>>\<close>: \<open>MissingRequiredValue\<close> exactly when the default is below
  \<open>min\<close> or above \<open>max\<close>. Both comparisons are false for a NaN default, which is
  therefore returned.
\<close>

theorem find_float_argument_range:
  "(\<forall>t f. find_argument name argv = Some t \<and> strtof subject convert t = (f, []) \<longrightarrow>
      find_float_argument subject convert name d mn mx argv =
        (if float_less f mn \<or> float_less mx f \<or> f = NaN
         then Inl (FloatOutOfRange t name mn f mx) else Inr f)) \<and>
   (\<forall>t f. find_argument name argv = Some t \<and> strtof subject convert t = (f, []) \<and>
        mn \<noteq> NaN \<and> mx \<noteq> NaN \<longrightarrow>
      find_float_argument subject convert name d mn mx argv =
        (if float_le mn f \<and> float_le f mx \<and> f \<noteq> NaN
         then Inr f else Inl (FloatOutOfRange t name mn f mx))) \<and>
   (\<forall>f. float_neq f f \<longleftrightarrow> f = NaN) \<and>
   (find_argument name argv = None \<longrightarrow>
      find_float_argument subject convert name d mn mx argv =
        (if float_less d mn \<or> float_less mx d then Inl (MissingRequiredValue Float_flag name)
         else Inr d)) \<and>
   (find_argument name argv = None \<longrightarrow>
      (\<forall>di mni mxi. find_int_argument name di mni mxi argv =
        (if sint di < sint mni \<or> sint mxi < sint di then Inl (MissingRequiredValue Int_flag name)
         else Inr di))) \<and>
   \<not> float_less NaN mn \<and> \<not> float_less mx NaN \<and>
   (find_argument name argv = None \<longrightarrow>
      find_float_argument subject convert name NaN mn mx argv = Inr NaN)"
proof -
  have 1: "\<forall>t f. find_argument name argv = Some t \<and> strtof subject convert t = (f, []) \<longrightarrow>
      find_float_argument subject convert name d mn mx argv =
        (if float_less f mn \<or> float_less mx f \<or> f = NaN
         then Inl (FloatOutOfRange t name mn f mx) else Inr f)"
    using find_float_argument_parsed [of name argv _ subject convert _ "[]" d mn mx] by simp
  have 2: "\<forall>t f. find_argument name argv = Some t \<and> strtof subject convert t = (f, []) \<and>
        mn \<noteq> NaN \<and> mx \<noteq> NaN \<longrightarrow>
      find_float_argument subject convert name d mn mx argv =
        (if float_le mn f \<and> float_le f mx \<and> f \<noteq> NaN
         then Inr f else Inl (FloatOutOfRange t name mn f mx))"
  proof (intro allI impI)
    fix t f
    assume a: "find_argument name argv = Some t \<and> strtof subject convert t = (f, []) \<and>
        mn \<noteq> NaN \<and> mx \<noteq> NaN"
    then have "find_float_argument subject convert name d mn mx argv =
        (if float_less f mn \<or> float_less mx f \<or> f = NaN
         then Inl (FloatOutOfRange t name mn f mx) else Inr f)"
      using 1 by blast
    moreover have "float_less f mn \<or> float_less mx f \<or> f = NaN \<longleftrightarrow>
         \<not> (float_le mn f \<and> float_le f mx \<and> f \<noteq> NaN)"
      using a by (intro float_range) simp_all
    ultimately show "find_float_argument subject convert name d mn mx argv =
        (if float_le mn f \<and> float_le f mx \<and> f \<noteq> NaN
         then Inr f else Inl (FloatOutOfRange t name mn f mx))"
      by (simp only: if_not_P if_P split: if_splits) auto
  qed
  have 3: "\<forall>f. float_neq f f \<longleftrightarrow> f = NaN" by (simp add: float_neq_self)
  have 4: "find_argument name argv = None \<longrightarrow>
      find_float_argument subject convert name d mn mx argv =
        (if float_less d mn \<or> float_less mx d then Inl (MissingRequiredValue Float_flag name)
         else Inr d)"
    by (simp add: find_float_argument_absent)
  have 5: "find_argument name argv = None \<longrightarrow>
      (\<forall>di mni mxi. find_int_argument name di mni mxi argv =
        (if sint di < sint mni \<or> sint mxi < sint di then Inl (MissingRequiredValue Int_flag name)
         else Inr di))"
    by (simp add: find_int_argument_absent)
  have 6: "\<not> float_less NaN mn \<and> \<not> float_less mx NaN" by (simp add: float_less_NaN)
  have 7: "find_argument name argv = None \<longrightarrow>
      find_float_argument subject convert name NaN mn mx argv = Inr NaN"
    by (simp add: find_float_argument_absent float_less_NaN)
  from 1 2 3 4 5 6 7 show ?thesis by (intro conjI) blast+
qed

theorem find_float_argument_range_witness:
  "find_float_argument length (\<lambda>s. if s = ''0.5'' then Finite (1 / 2) else if s = ''2'' then Finite 2 else NaN)
     ''-p'' (Finite 0) (Finite 0) (Finite 1) [''prog'', ''-p=0.5''] = Inr (Finite (1 / 2)) \<and>
   find_float_argument length (\<lambda>s. if s = ''0.5'' then Finite (1 / 2) else if s = ''2'' then Finite 2 else NaN)
     ''-p'' (Finite 0) (Finite 0) (Finite 1) [''prog'', ''-p'', ''2''] =
     Inl (FloatOutOfRange ''2'' ''-p'' (Finite 0) (Finite 2) (Finite 1)) \<and>
   find_float_argument length (\<lambda>s. if s = ''0.5'' then Finite (1 / 2) else if s = ''2'' then Finite 2 else NaN)
     ''-p'' (Finite 0) (Finite 0) (Finite 1) [''prog'', ''-p=nan''] =
     Inl (FloatOutOfRange ''nan'' ''-p'' (Finite 0) NaN (Finite 1)) \<and>
   find_float_argument length (\<lambda>s. NaN) ''-p'' (Finite (- 1)) (Finite 0) (Finite 1) [''prog'', ''-q''] =
     Inl (MissingRequiredValue Float_flag ''-p'') \<and>
   find_int_argument ''-p'' (- 1) 0 1 [''prog'', ''-q''] = Inl (MissingRequiredValue Int_flag ''-p'') \<and>
   find_float_argument length (\<lambda>s. NaN) ''-p'' NaN (Finite 0) (Finite 1) [''prog'', ''-q''] = Inr NaN"
proof -
  let ?conv = "\<lambda>s. if s = ''0.5'' then Finite (1 / 2) else if s = ''2'' then Finite 2 else NaN"
  have a1: "find_argument ''-p'' [''prog'', ''-p=0.5''] = Some ''0.5''" by code_simp
  have a2: "find_argument ''-p'' [''prog'', ''-p'', ''2''] = Some ''2''" by code_simp
  have a3: "find_argument ''-p'' [''prog'', ''-p=nan''] = Some ''nan''" by code_simp
  have a4: "find_argument ''-p'' [''prog'', ''-q''] = None" by code_simp
  have s1: "strtof length ?conv ''0.5'' = (Finite (1 / 2), [])" by (simp add: strtof_def)
  have s2: "strtof length ?conv ''2'' = (Finite 2, [])" by (simp add: strtof_def)
  have s3: "strtof length ?conv ''nan'' = (NaN, [])" by (simp add: strtof_def)
  have 1: "find_float_argument length ?conv ''-p'' (Finite 0) (Finite 0) (Finite 1) [''prog'', ''-p=0.5'']
      = Inr (Finite (1 / 2))"
    using find_float_argument_range [of "''-p''" "[''prog'', ''-p=0.5'']" length ?conv "Finite 0" "Finite 0" "Finite 1",
        THEN conjunct2, THEN conjunct1, THEN spec, THEN spec, of "''0.5''" "Finite (1 / 2)"] a1 s1
    by simp
  have 2: "find_float_argument length ?conv ''-p'' (Finite 0) (Finite 0) (Finite 1) [''prog'', ''-p'', ''2'']
      = Inl (FloatOutOfRange ''2'' ''-p'' (Finite 0) (Finite 2) (Finite 1))"
    using find_float_argument_range [of "''-p''" "[''prog'', ''-p'', ''2'']" length ?conv "Finite 0" "Finite 0" "Finite 1",
        THEN conjunct1, THEN spec, THEN spec, of "''2''" "Finite 2"] a2 s2
    by simp
  have 3: "find_float_argument length ?conv ''-p'' (Finite 0) (Finite 0) (Finite 1) [''prog'', ''-p=nan'']
      = Inl (FloatOutOfRange ''nan'' ''-p'' (Finite 0) NaN (Finite 1))"
    using find_float_argument_range [of "''-p''" "[''prog'', ''-p=nan'']" length ?conv "Finite 0" "Finite 0" "Finite 1",
        THEN conjunct1, THEN spec, THEN spec, of "''nan''" NaN] a3 s3
    by simp
  have 4: "find_float_argument length (\<lambda>s. NaN) ''-p'' (Finite (- 1)) (Finite 0) (Finite 1) [''prog'', ''-q'']
      = Inl (MissingRequiredValue Float_flag ''-p'')"
    using find_float_argument_range [of "''-p''" "[''prog'', ''-q'']" length "\<lambda>s. NaN" "Finite (- 1)" "Finite 0" "Finite 1"] a4
    by simp
  have 5: "find_int_argument ''-p'' (- 1) 0 1 [''prog'', ''-q''] = Inl (MissingRequiredValue Int_flag ''-p'')"
    using find_float_argument_range [of "''-p''" "[''prog'', ''-q'']" length "\<lambda>s. NaN" "Finite (- 1)" "Finite 0" "Finite 1"] a4
    by simp
  have 6: "find_float_argument length (\<lambda>s. NaN) ''-p'' NaN (Finite 0) (Finite 1) [''prog'', ''-q''] = Inr NaN"
    using find_float_argument_range [of "''-p''" "[''prog'', ''-q'']" length "\<lambda>s. NaN" "Finite (- 1)" "Finite 0" "Finite 1"] a4
    by simp
  from 1 2 3 4 5 6 show ?thesis by blast
qed

text \<open>
  Claim C1 says that a flag present with an empty value makes \<open>find_float_argument\<close>
  exit with \<open>InvalidFloatValue\<close>. The code does skip the default logic and does pass
  the empty text to \<open>strtof\<close>, but \<open>strtof\<close> then converts nothing, returns zero and
  leaves \<open>processed\<close> at the terminator, so the test \<open>*processed != 0\<close> does not
  fire: the call returns 0 when 0 is within the range, and exits with
  \<open>FloatOutOfRange\<close> otherwise, whatever the default is.
\<close>

theorem find_float_argument_empty_value:
  "\<forall>subject convert.
     find_float_argument subject convert ''-p'' (Finite 5) (Finite (- 1)) (Finite 1) [''prog'', ''-p='']
       = Inr (Finite 0) \<and>
     find_float_argument subject convert ''-p'' (Finite 5) (Finite (- 1)) (Finite 1) [''prog'', ''-p'']
       = Inr (Finite 0) \<and>
     find_float_argument subject convert ''-p'' (Finite 5) (Finite 1) (Finite 9) [''prog'', ''-p='']
       = Inl (FloatOutOfRange [] ''-p'' (Finite 1) (Finite 0) (Finite 9))"
proof (intro allI)
  fix subject convert
  have a: "find_argument ''-p'' [''prog'', ''-p=''] = Some []" by code_simp
  have b: "find_argument ''-p'' [''prog'', ''-p''] = Some []" by code_simp
  show "find_float_argument subject convert ''-p'' (Finite 5) (Finite (- 1)) (Finite 1) [''prog'', ''-p='']
       = Inr (Finite 0) \<and>
     find_float_argument subject convert ''-p'' (Finite 5) (Finite (- 1)) (Finite 1) [''prog'', ''-p'']
       = Inr (Finite 0) \<and>
     find_float_argument subject convert ''-p'' (Finite 5) (Finite 1) (Finite 9) [''prog'', ''-p='']
       = Inl (FloatOutOfRange [] ''-p'' (Finite 1) (Finite 0) (Finite 9))"
    using find_float_argument_parsed [OF a strtof_empty] find_float_argument_parsed [OF b strtof_empty]
    by simp
qed

section \<open>Properties of check_for_unknown_arguments\<close>

lemma known_test:
  "strstr tok k = Some 0 \<and>
   (char_at tok (length k) = None \<or> char_at tok (length k) = Some CHR ''='') \<longleftrightarrow> matches k tok"
  using token_test [of tok k] by blast

lemma matches_exact: "matches k tok \<Longrightarrow> char_at tok (length k) = None \<longleftrightarrow> tok = k"
  by (auto simp: matches_def char_at_def prefix_def)

lemma match_known_Cons:
  "match_known (k # rest) argv i =
     (if matches k (argv ! i)
      then Some (argv ! i = k \<and> i + 1 < length argv \<and> \<not> begins_with_dash (argv ! (i + 1)))
      else match_known rest argv i)"
proof (cases "matches k (argv ! i)")
  case True
  then have c: "strstr (argv ! i) k = Some 0 \<and>
      (char_at (argv ! i) (length k) = None \<or> char_at (argv ! i) (length k) = Some CHR ''='')"
    using known_test [of "argv ! i" k] by blast
  have lt: "int i < int (length argv) - 1 \<longleftrightarrow> i + 1 < length argv" by linarith
  have "match_known (k # rest) argv i =
        Some (char_at (argv ! i) (length k) = None \<and> int i < int (length argv) - 1 \<and>
              char_at (argv ! (i + 1)) 0 \<noteq> Some CHR ''-'')"
    by (simp only: match_known.simps if_P [OF c])
  then show ?thesis
    using True by (simp only: matches_exact [OF True] lt char_at_0_dash if_True)
next
  case False
  then have c: "\<not> (strstr (argv ! i) k = Some 0 \<and>
      (char_at (argv ! i) (length k) = None \<or> char_at (argv ! i) (length k) = Some CHR ''=''))"
    using known_test [of "argv ! i" k] by blast
  have "match_known (k # rest) argv i = match_known rest argv i"
    by (simp only: match_known.simps if_not_P [OF c])
  then show ?thesis using False by (simp only: if_False)
qed

lemma match_known_eq:
  "match_known known argv i =
     (case find (\<lambda>k. matches k (argv ! i)) known of
        None \<Rightarrow> None
      | Some k \<Rightarrow> Some (argv ! i = k \<and> i + 1 < length argv \<and> \<not> begins_with_dash (argv ! (i + 1))))"
proof (induction known)
  case Nil
  then show ?case by simp
next
  case (Cons k rest)
  then show ?case by (simp only: match_known_Cons find.simps split: if_splits) simp
qed

lemma match_known_cases:
  "match_known known argv i =
     (if known_token known (argv ! i)
      then Some (bare_known known (argv ! i) \<and> i + 1 < length argv \<and>
                 \<not> begins_with_dash (argv ! (i + 1)))
      else None)"
proof (cases "find (\<lambda>k. matches k (argv ! i)) known")
  case None
  then have "\<not> known_token known (argv ! i)"
    by (auto simp: known_token_def find_None_iff)
  with None show ?thesis by (simp add: match_known_eq)
next
  case (Some k)
  then have "known_token known (argv ! i)"
    by (auto simp: known_token_def find_Some_iff)
  with Some show ?thesis by (simp add: match_known_eq bare_known_def)
qed

lemma consumed_Suc:
  "1 \<le> i \<Longrightarrow> consumed known argv (Suc i) \<longleftrightarrow>
     \<not> consumed known argv i \<and> bare_known known (argv ! i) \<and> Suc i < length argv \<and>
     \<not> begins_with_dash (argv ! Suc i)"
  by (cases i) simp_all

lemma boundary_step:
  assumes "1 \<le> i" "i < boundary argv" "Suc i < length argv" "\<not> begins_with_dash (argv ! Suc i)"
  shows "Suc i < boundary argv"
proof (rule ccontr)
  assume "\<not> Suc i < boundary argv"
  with assms(2) have "boundary argv = Suc i" by simp
  with assms(3) have "argv ! Suc i = ''--''" using boundary_is_terminator [of argv] by simp
  with assms(4) show False by (simp add: begins_with_dash_def)
qed

lemma check_loop_from:
  assumes "1 \<le> i" and "i \<le> boundary argv" and "\<not> consumed known argv i"
  shows "check_loop known for_mode argv i =
         (case find (\<lambda>j. \<not> accepted known argv j) [i..<boundary argv] of
            None \<Rightarrow> Inr ()
          | Some j \<Rightarrow> Inl (UnrecognizedArgument (argv ! j) for_mode known))"
  using assms
proof (induction "boundary argv - i" arbitrary: i rule: less_induct)
  case less
  show ?case
  proof (cases "i = boundary argv")
    case True
    have "check_loop known for_mode argv i = Inr ()"
      using boundary_is_terminator [of argv] True
      by (subst check_loop.simps) auto
    with True show ?thesis by simp
  next
    case False
    with less.prems have lt: "i < boundary argv" by simp
    then have len: "i < length argv" using boundary_le_length [of argv] by simp
    have nd: "argv ! i \<noteq> ''--''" using before_boundary [OF less.prems(1) lt] .
    have upt: "[i..<boundary argv] = i # [Suc i..<boundary argv]"
      using lt by (simp add: upt_conv_Cons)
    show ?thesis
    proof (cases "known_token known (argv ! i)")
      case False
      then have "\<not> accepted known argv i" using less.prems(3) by (simp add: accepted_def)
      then show ?thesis using False len nd upt
        by (subst check_loop.simps) (simp add: match_known_cases)
    next
      case True
      then have acc: "accepted known argv i" by (simp add: accepted_def)
      define skip where "skip \<longleftrightarrow> bare_known known (argv ! i) \<and> Suc i < length argv \<and>
                 \<not> begins_with_dash (argv ! Suc i)"
      have mk: "match_known known argv i = Some skip"
        using True by (simp add: match_known_cases skip_def)
      have step: "check_loop known for_mode argv i =
                  check_loop known for_mode argv (if skip then i + 1 + 1 else i + 1)"
        using len nd by (subst check_loop.simps) (simp add: mk)
      have cs: "consumed known argv (Suc i) \<longleftrightarrow> skip"
        using consumed_Suc [OF less.prems(1), of known argv] less.prems(3) by (simp add: skip_def)
      show ?thesis
      proof (cases skip)
        case False
        then have nc: "\<not> consumed known argv (Suc i)" using cs by simp
        have "check_loop known for_mode argv (Suc i) =
              (case find (\<lambda>j. \<not> accepted known argv j) [Suc i..<boundary argv] of
                 None \<Rightarrow> Inr ()
               | Some j \<Rightarrow> Inl (UnrecognizedArgument (argv ! j) for_mode known))"
          using lt nc by (intro less.hyps) simp_all
        moreover have "check_loop known for_mode argv i = check_loop known for_mode argv (Suc i)"
          using step False by simp
        moreover have "find (\<lambda>j. \<not> accepted known argv j) [i..<boundary argv] =
              find (\<lambda>j. \<not> accepted known argv j) [Suc i..<boundary argv]"
          using acc by (simp add: upt)
        ultimately show ?thesis by simp
      next
        case True
        then have c1: "consumed known argv (Suc i)" using cs by simp
        then have acc1: "accepted known argv (Suc i)" by (simp add: accepted_def)
        have nc2: "\<not> consumed known argv (Suc (Suc i))"
          using c1 consumed_Suc [of "Suc i" known argv] by simp
        have lt1: "Suc i < boundary argv"
          using True by (intro boundary_step [OF less.prems(1) lt]) (simp_all add: skip_def)
        then have upt1: "[Suc i..<boundary argv] = Suc i # [Suc (Suc i)..<boundary argv]"
          by (simp add: upt_conv_Cons)
        have "check_loop known for_mode argv (Suc (Suc i)) =
              (case find (\<lambda>j. \<not> accepted known argv j) [Suc (Suc i)..<boundary argv] of
                 None \<Rightarrow> Inr ()
               | Some j \<Rightarrow> Inl (UnrecognizedArgument (argv ! j) for_mode known))"
          using lt1 nc2 by (intro less.hyps) simp_all
        moreover have "check_loop known for_mode argv i = check_loop known for_mode argv (Suc (Suc i))"
          using step True by simp
        moreover have "find (\<lambda>j. \<not> accepted known argv j) [i..<boundary argv] =
              find (\<lambda>j. \<not> accepted known argv j) [Suc (Suc i)..<boundary argv]"
          using acc acc1 by (simp add: upt upt1)
        ultimately show ?thesis by simp
      qed
    qed
  qed
qed

lemma check_for_unknown_arguments_eq:
  "check_for_unknown_arguments known for_mode argv =
     (case find (\<lambda>j. \<not> accepted known argv j) [1..<boundary argv] of
        None \<Rightarrow> Inr ()
      | Some j \<Rightarrow> Inl (UnrecognizedArgument (argv ! j) for_mode known))"
proof (cases "1 \<le> boundary argv")
  case True
  then show ?thesis
    using check_loop_from [of 1 argv known for_mode]
    by (simp add: check_for_unknown_arguments_def)
next
  case False
  then have "argv = []" by (cases argv) (simp_all add: boundary_def)
  then show ?thesis
    by (simp add: check_for_unknown_arguments_def check_loop.simps boundary_def)
qed

lemma find_upt_first:
  assumes "a \<le> i" and "i < b" and "P i" and "\<forall>j. a \<le> j \<and> j < i \<longrightarrow> \<not> P j"
  shows "find P [a..<b] = Some i"
proof -
  have "i - a < length [a..<b]" using assms(1,2) by simp
  moreover have "[a..<b] ! (i - a) = i" using assms(1,2) by simp
  moreover have "\<forall>j < i - a. \<not> P ([a..<b] ! j)"
    using assms(1,2,4) by auto
  ultimately show ?thesis using assms(3) by (auto simp: find_Some_iff)
qed

lemma bare_known_iff:
  assumes "\<forall>k \<in> set known. CHR ''='' \<notin> set k"
  shows "bare_known known tok \<longleftrightarrow> tok \<in> set known"
proof (cases "find (\<lambda>k. matches k tok) known")
  case None
  then have "\<forall>k \<in> set known. \<not> matches k tok" by (auto simp: find_None_iff)
  then have "tok \<notin> set known" by (auto simp: matches_def)
  with None show ?thesis by (simp add: bare_known_def)
next
  case (Some k)
  then have k: "k \<in> set known" "matches k tok"
    by (auto simp: find_Some_iff)
  show ?thesis
  proof (cases "tok = k")
    case True
    with Some k show ?thesis by (simp add: bare_known_def)
  next
    case False
    with k(2) have "prefix (k @ ''='') tok" by (simp add: matches_def)
    then have "CHR ''='' \<in> set tok" by (auto simp: prefix_def)
    with assms have "tok \<notin> set known" by blast
    with Some False show ?thesis by (simp add: bare_known_def)
  qed
qed

lemma consumed_iff:
  assumes "\<forall>k \<in> set known. begins_with_dash k \<and> CHR ''='' \<notin> set k"
  shows "consumed known argv i \<longleftrightarrow>
         2 \<le> i \<and> i < length argv \<and> argv ! (i - 1) \<in> set known \<and> \<not> begins_with_dash (argv ! i)"
proof (cases i)
  case 0
  then show ?thesis by simp
next
  case (Suc i')
  note i = Suc
  show ?thesis
  proof (cases i')
    case 0
    with i show ?thesis by simp
  next
    case (Suc i'')
    have bare: "bare_known known (argv ! Suc i'') \<longleftrightarrow> argv ! Suc i'' \<in> set known"
      using assms by (intro bare_known_iff) blast
    have "\<not> consumed known argv (Suc i'')" if "argv ! Suc i'' \<in> set known"
    proof
      assume c: "consumed known argv (Suc i'')"
      then have "\<not> begins_with_dash (argv ! Suc i'')" by (cases i'') simp_all
      with assms that show False by blast
    qed
    with bare show ?thesis unfolding i Suc by auto
  qed
qed

text \<open>
  Claim C4. \<open>check_for_unknown_arguments\<close> returns normally exactly when every token
  at an index from 1 up to the flag boundary is accepted: it is a known name, or a
  known name followed by \<open>=\<close>, or it does not begin with \<open>-\<close> and comes right after
  a token matched as a bare known flag, in which case it is consumed as that flag's
  value and not validated. At the first token that is not accepted the call exits with
  \<open>UnrecognizedArgument\<close>, which carries the printed token, the mode label if one is
  given, and the list of known names. A token matched as a bare known flag is a token
  at a flag position for which the search through the known names stops at the token
  itself; for known names without \<open>=\<close> that is any known name, and when the known
  names also begin with \<open>-\<close>, a token is consumed exactly when it does not begin
  with \<open>-\<close> and the token before it is a known name.
\<close>

theorem check_for_unknown_arguments_accepts:
  "(check_for_unknown_arguments known for_mode argv = Inr () \<longleftrightarrow>
      (\<forall>i. 1 \<le> i \<and> i < boundary argv \<longrightarrow> accepted known argv i)) \<and>
   (\<forall>i. 1 \<le> i \<and> i < boundary argv \<and> \<not> accepted known argv i \<and>
        (\<forall>j. 1 \<le> j \<and> j < i \<longrightarrow> accepted known argv j) \<longrightarrow>
      check_for_unknown_arguments known for_mode argv =
      Inl (UnrecognizedArgument (argv ! i) for_mode known)) \<and>
   ((\<forall>k \<in> set known. CHR ''='' \<notin> set k) \<longrightarrow>
      (\<forall>tok. bare_known known tok \<longleftrightarrow> tok \<in> set known)) \<and>
   ((\<forall>k \<in> set known. begins_with_dash k \<and> CHR ''='' \<notin> set k) \<longrightarrow>
      (\<forall>i. consumed known argv i \<longleftrightarrow>
         2 \<le> i \<and> i < length argv \<and> argv ! (i - 1) \<in> set known \<and>
         \<not> begins_with_dash (argv ! i)))"
proof (intro conjI allI impI)
  have "check_for_unknown_arguments known for_mode argv = Inr () \<longleftrightarrow>
        find (\<lambda>j. \<not> accepted known argv j) [1..<boundary argv] = None"
    by (simp add: check_for_unknown_arguments_eq split: option.splits)
  also have "\<dots> \<longleftrightarrow> (\<forall>i. 1 \<le> i \<and> i < boundary argv \<longrightarrow> accepted known argv i)"
    by (auto simp: find_None_iff)
  finally show "check_for_unknown_arguments known for_mode argv = Inr () \<longleftrightarrow>
      (\<forall>i. 1 \<le> i \<and> i < boundary argv \<longrightarrow> accepted known argv i)" .
next
  fix i
  assume "1 \<le> i \<and> i < boundary argv \<and> \<not> accepted known argv i \<and>
        (\<forall>j. 1 \<le> j \<and> j < i \<longrightarrow> accepted known argv j)"
  then have "find (\<lambda>j. \<not> accepted known argv j) [1..<boundary argv] = Some i"
    by (intro find_upt_first) simp_all
  then show "check_for_unknown_arguments known for_mode argv =
      Inl (UnrecognizedArgument (argv ! i) for_mode known)"
    by (simp add: check_for_unknown_arguments_eq)
next
  fix tok
  assume "\<forall>k \<in> set known. CHR ''='' \<notin> set k"
  then show "bare_known known tok \<longleftrightarrow> tok \<in> set known" by (rule bare_known_iff)
next
  fix i
  assume "\<forall>k \<in> set known. begins_with_dash k \<and> CHR ''='' \<notin> set k"
  then show "consumed known argv i \<longleftrightarrow>
         2 \<le> i \<and> i < length argv \<and> argv ! (i - 1) \<in> set known \<and>
         \<not> begins_with_dash (argv ! i)"
    by (rule consumed_iff)
qed

theorem check_for_unknown_arguments_accepts_witness:
  "check_for_unknown_arguments [''-a'', ''-b''] (Some ''run'') [''prog'', ''-a'', ''5'', ''-b=x'', ''--'', ''junk''] = Inr () \<and>
   check_for_unknown_arguments [''-a'', ''-b''] (Some ''run'') [''prog'', ''-a'', ''5'', ''6'', ''-b''] =
     Inl (UnrecognizedArgument ''6'' (Some ''run'') [''-a'', ''-b'']) \<and>
   check_for_unknown_arguments [''-a'', ''-b''] None [''prog'', ''-a=1'', ''5''] =
     Inl (UnrecognizedArgument ''5'' None [''-a'', ''-b'']) \<and>
   (bare_known [''-a'', ''-b''] ''-b'' \<longleftrightarrow> ''-b'' \<in> set [''-a'', ''-b'']) \<and>
   consumed [''-a'', ''-b''] [''prog'', ''-a'', ''5'', ''-b=x'', ''--'', ''junk''] 2"
proof -
  let ?known = "[''-a'', ''-b'']"
  let ?a1 = "[''prog'', ''-a'', ''5'', ''-b=x'', ''--'', ''junk'']"
  let ?a2 = "[''prog'', ''-a'', ''5'', ''6'', ''-b'']"
  let ?a3 = "[''prog'', ''-a=1'', ''5'']"
  have b1: "boundary ?a1 = 4" by (simp add: boundary_def eligible_def)
  have b2: "boundary ?a2 = 5" by (simp add: boundary_def eligible_def)
  have b3: "boundary ?a3 = 3" by (simp add: boundary_def eligible_def)
  have acc1: "accepted ?known ?a1 1" "accepted ?known ?a1 2" "accepted ?known ?a1 3" by code_simp+
  have acc2: "accepted ?known ?a2 1" "accepted ?known ?a2 2" "\<not> accepted ?known ?a2 3" by code_simp+
  have acc3: "accepted ?known ?a3 1" "\<not> accepted ?known ?a3 2" by code_simp+
  have all1: "\<forall>i. 1 \<le> i \<and> i < boundary ?a1 \<longrightarrow> accepted ?known ?a1 i"
  proof (intro allI impI)
    fix i assume "1 \<le> i \<and> i < boundary ?a1"
    then have "i = 1 \<or> i = 2 \<or> i = 3" using b1 by arith
    then show "accepted ?known ?a1 i" using acc1 by auto
  qed
  have first2: "\<forall>j. 1 \<le> j \<and> j < 3 \<longrightarrow> accepted ?known ?a2 j"
  proof (intro allI impI)
    fix j :: nat assume "1 \<le> j \<and> j < 3"
    then have "j = 1 \<or> j = 2" by arith
    then show "accepted ?known ?a2 j" using acc2 by auto
  qed
  have first3: "\<forall>j. 1 \<le> j \<and> j < 2 \<longrightarrow> accepted ?known ?a3 j"
  proof (intro allI impI)
    fix j :: nat assume "1 \<le> j \<and> j < 2"
    then have "j = 1" by arith
    then show "accepted ?known ?a3 j" using acc3 by auto
  qed
  have 1: "check_for_unknown_arguments ?known (Some ''run'') ?a1 = Inr ()"
    using check_for_unknown_arguments_accepts [of ?known "Some ''run''" ?a1] all1 by blast
  have 2: "check_for_unknown_arguments ?known (Some ''run'') ?a2 =
      Inl (UnrecognizedArgument ''6'' (Some ''run'') ?known)"
    using check_for_unknown_arguments_accepts [of ?known "Some ''run''" ?a2, THEN conjunct2, THEN conjunct1,
        THEN spec, of 3] acc2(3) first2 b2 by simp
  have 3: "check_for_unknown_arguments ?known None ?a3 = Inl (UnrecognizedArgument ''5'' None ?known)"
    using check_for_unknown_arguments_accepts [of ?known None ?a3, THEN conjunct2, THEN conjunct1,
        THEN spec, of 2] acc3(2) first3 b3 by simp
  have 4: "bare_known ?known ''-b'' \<longleftrightarrow> ''-b'' \<in> set ?known"
    using check_for_unknown_arguments_accepts [of ?known None ?a3, THEN conjunct2, THEN conjunct2,
        THEN conjunct1] by simp
  have 5: "consumed ?known ?a1 2"
    using check_for_unknown_arguments_accepts [of ?known None ?a1, THEN conjunct2, THEN conjunct2,
        THEN conjunct2] by (simp add: begins_with_dash_def)
  from 1 2 3 4 5 show ?thesis by blast
qed

end
